theory Spec2Isabelle
  imports Main "HOL-Library.Multiset" "HOL-Library.AList"
begin

section \<open>The module manager of \<open>goog/module/modulemanager.js\<close>\<close>

text \<open>
  A shallow embedding of \<open>goog.module.ModuleManager\<close>. The manager object is a record
  whose fields are the fields of the JavaScript object; every method takes the manager
  (\<open>this\<close>) and returns the manager it leaves behind. Isabelle does not accept a name
  that ends in an underscore, so the private members \<open>loadModule_\<close>,
  \<open>moduleInfoMap_\<close>, ... are written without it (\<open>registerCallback_\<close>, which would
  clash with the public \<open>registerCallback\<close>, is \<open>registerCallbackOfType\<close>).

  What the manager does to its environment is recorded, in order, in the field
  \<open>events\<close>: every call of the loader's \<open>loadModules\<close>, every call of a registered
  callback, every timer it starts. Callbacks are opaque: they are identified by a name and
  are assumed not to call back into the manager while they run.
\<close>

subsection \<open>Enumerations, errors, callbacks and events\<close>

datatype CallbackType = ERROR | IDLE | ACTIVE | USER_IDLE | USER_ACTIVE

datatype FailureType = UNAUTHORIZED | CONSECUTIVE_FAILURES | TIMEOUT | OLD_CODE_GONE

text \<open>
  The two ways a method can throw: the explicit \<open>Error('Module already loaded: ' + id)\<close>
  of \<open>loadModule_\<close>, and the \<open>TypeError\<close> JavaScript raises when a method is called
  on \<open>undefined\<close> or \<open>null\<close> (a module id that is not in \<open>moduleInfoMap_\<close>, a
  loader that was never set).
\<close>

datatype error = TypeError | ModuleAlreadyLoaded string

text \<open>
  A callback held by a module record: a client function (with its handler) given to
  \<open>execOnLoad\<close> or \<open>registerInitializationCallback\<close>, or the \<open>callback\<close> /
  \<open>errback\<close> method of the deferred object number \<open>d\<close> that \<open>load\<close> returned.
\<close>

datatype callback = Fn string | DeferredCallback nat | DeferredErrback nat

datatype argument = Context "string option" | Cause FailureType

datatype timer = RunCallback callback | RunPreload string nat

datatype event =
    LoadModules "string list"
  | ManagerCallback CallbackType string
  | ErrorCallback string string FailureType
  | Execute callback argument
  | SetTimeout timer

text \<open>
  A method returns \<open>None\<close> when it does not return at all (the dependency walk on a
  cyclic graph), \<open>Some (Inl e)\<close> when it throws \<open>e\<close>, and \<open>Some (Inr x)\<close> when it
  returns \<open>x\<close>.
\<close>

type_synonym 'a res = "(error + 'a) option"

definition ok :: "'a \<Rightarrow> 'a res" where
  "ok x = Some (Inr x)"

definition throw :: "error \<Rightarrow> 'a res" where
  "throw e = Some (Inl e)"

definition andThen :: "'a res \<Rightarrow> ('a \<Rightarrow> 'b res) \<Rightarrow> 'b res" where
  "andThen r f = (case r of None \<Rightarrow> None | Some (Inl e) \<Rightarrow> Some (Inl e) | Some (Inr x) \<Rightarrow> f x)"

subsection \<open>Library functions of \<open>goog.array\<close>\<close>

text \<open>
  Modelled from the spec: \<open>goog.array.removeDuplicates\<close> is not among the source files.
  The spec has it "remove duplicate occurrences keeping the first".
  (\<open>remdups\<close> of the HOL library keeps the last occurrence and is a different function.)
\<close>

fun removeDuplicates :: "'a list \<Rightarrow> 'a list" where
  "removeDuplicates [] = []"
| "removeDuplicates (x # xs) = x # removeDuplicates (filter (\<lambda>y. y \<noteq> x) xs)"

text \<open>
  Modelled from the spec: \<open>goog.array.insert(arr, obj)\<close> is not among the source files; it
  appends \<open>obj\<close> unless the array already contains it. \<open>goog.array.remove\<close>, which
  removes the first occurrence of a value, is \<open>remove1\<close>; \<open>goog.array.contains\<close> is
  membership in \<open>set\<close>.
\<close>

definition insertIfAbsent :: "'a list \<Rightarrow> 'a \<Rightarrow> 'a list" where
  "insertIfAbsent arr obj = (if obj \<in> set arr then arr else arr @ [obj])"

subsection \<open>Module records\<close>

text \<open>
  Modelled from the spec: \<open>goog.module.ModuleInfo\<close> is not among the source files. The
  record and its operations follow the spec's ModuleRecord: the declared dependency ids,
  the loaded flag, and the three ordered callback lists, whose entries fire at most once
  and are then discarded. The fetch locations are opaque to the manager and left out.
\<close>

record ModuleInfo =
  dependencyIds :: "string list"
  loaded :: bool
  pendingCallbacks :: "callback list"
  pendingErrbacks :: "callback list"
  earlyCallbacks :: "callback list"

definition newModuleInfo :: "string list \<Rightarrow> ModuleInfo" where
  "newModuleInfo deps =
     \<lparr>dependencyIds = deps, loaded = False, pendingCallbacks = [], pendingErrbacks = [],
      earlyCallbacks = []\<rparr>"

definition registerCallbackOn :: "ModuleInfo \<Rightarrow> callback \<Rightarrow> ModuleInfo" where
  "registerCallbackOn info cb = info\<lparr>pendingCallbacks := pendingCallbacks info @ [cb]\<rparr>"

definition registerErrbackOn :: "ModuleInfo \<Rightarrow> callback \<Rightarrow> ModuleInfo" where
  "registerErrbackOn info cb = info\<lparr>pendingErrbacks := pendingErrbacks info @ [cb]\<rparr>"

definition registerEarlyCallbackOn :: "ModuleInfo \<Rightarrow> callback \<Rightarrow> ModuleInfo" where
  "registerEarlyCallbackOn info cb = info\<lparr>earlyCallbacks := earlyCallbacks info @ [cb]\<rparr>"

text \<open>
  Modelled from the spec: \<open>ModuleInfo.onLoad\<close> marks the record loaded, fires the pending
  callbacks of the success path with the module context (the early ones first), and clears
  the pending lists. \<open>ModuleInfo.onError\<close> fires the pending errbacks with the cause and
  clears the pending lists. Each returns the record and the calls it made.
\<close>

definition onLoad :: "ModuleInfo \<Rightarrow> string option \<Rightarrow> ModuleInfo \<times> event list" where
  "onLoad info ctx =
     (info\<lparr>loaded := True, pendingCallbacks := [], pendingErrbacks := [], earlyCallbacks := []\<rparr>,
      map (\<lambda>cb. Execute cb (Context ctx)) (earlyCallbacks info @ pendingCallbacks info))"

definition onError :: "ModuleInfo \<Rightarrow> FailureType \<Rightarrow> ModuleInfo \<times> event list" where
  "onError info cause =
     (info\<lparr>pendingCallbacks := [], pendingErrbacks := [], earlyCallbacks := []\<rparr>,
      map (\<lambda>cb. Execute cb (Cause cause)) (pendingErrbacks info))"

subsection \<open>The manager object\<close>

text \<open>
  \<open>moduleInfoMap\<close> is the JavaScript object from module id to module record, as an
  association list read with \<open>map_of\<close>. \<open>callbackMap\<close> gives, for a callback type, the
  registered functions in registration order (no entry in the JavaScript object is the
  empty list here: the code treats the two alike). \<open>loader\<close> says whether \<open>setLoader\<close>
  has installed a loader. \<open>deferredCount\<close> numbers the deferred objects created so far.
  Module ids are assumed not to be names that a JavaScript object inherits
  (\<open>toString\<close>, ...) nor the string \<open>undefined\<close>.
\<close>

record ModuleManager =
  moduleInfoMap :: "(string \<times> ModuleInfo) list"
  loadingModuleIds :: "string list"
  requestedModuleIdsQueue :: "string list"
  userInitiatedLoadingModuleIds :: "string list"
  callbackMap :: "CallbackType \<Rightarrow> string list"
  batchModeEnabled :: bool
  loader :: bool
  consecutiveFailures :: nat
  lastActive :: bool
  userLastActive :: bool
  moduleContext :: "string option"
  currentlyLoadingModule :: "string option"
  deferredCount :: nat
  events :: "event list"

definition newModuleManager :: ModuleManager where
  "newModuleManager =
     \<lparr>moduleInfoMap = [], loadingModuleIds = [], requestedModuleIdsQueue = [],
      userInitiatedLoadingModuleIds = [], callbackMap = (\<lambda>ty. []), batchModeEnabled = False,
      loader = False, consecutiveFailures = 0, lastActive = False, userLastActive = False,
      moduleContext = None, currentlyLoadingModule = None, deferredCount = 0, events = []\<rparr>"

definition emit :: "ModuleManager \<Rightarrow> event list \<Rightarrow> ModuleManager" where
  "emit this evs = this\<lparr>events := events this @ evs\<rparr>"

definition setBatchModeEnabled :: "ModuleManager \<Rightarrow> bool \<Rightarrow> ModuleManager" where
  "setBatchModeEnabled this enabled = this\<lparr>batchModeEnabled := enabled\<rparr>"

definition setAllModuleInfo :: "ModuleManager \<Rightarrow> (string \<times> string list) list \<Rightarrow> ModuleManager" where
  "setAllModuleInfo this infoMap =
     fold (\<lambda>(mid, deps) t. t\<lparr>moduleInfoMap := AList.update mid (newModuleInfo deps) (moduleInfoMap t)\<rparr>)
       infoMap this"

definition getModuleInfo :: "ModuleManager \<Rightarrow> string \<Rightarrow> ModuleInfo option" where
  "getModuleInfo this mid = map_of (moduleInfoMap this) mid"

definition putModuleInfo :: "ModuleManager \<Rightarrow> string \<Rightarrow> ModuleInfo \<Rightarrow> ModuleManager" where
  "putModuleInfo this mid info = this\<lparr>moduleInfoMap := AList.update mid info (moduleInfoMap this)\<rparr>"

definition setLoader :: "ModuleManager \<Rightarrow> ModuleManager" where
  "setLoader this = this\<lparr>loader := True\<rparr>"

definition setModuleContext :: "ModuleManager \<Rightarrow> string option \<Rightarrow> ModuleManager" where
  "setModuleContext this ctx = this\<lparr>moduleContext := ctx\<rparr>"

definition isActive :: "ModuleManager \<Rightarrow> bool" where
  "isActive this = (length (loadingModuleIds this) > 0)"

definition isUserActive :: "ModuleManager \<Rightarrow> bool" where
  "isUserActive this = (length (userInitiatedLoadingModuleIds this) > 0)"

definition executeCallbacks :: "ModuleManager \<Rightarrow> CallbackType \<Rightarrow> ModuleManager" where
  "executeCallbacks this ty = emit this (map (ManagerCallback ty) (callbackMap this ty))"

definition dispatchActiveIdleChangeIfNeeded :: "ModuleManager \<Rightarrow> ModuleManager" where
  "dispatchActiveIdleChangeIfNeeded this =
     (let active = isActive this;
          this1 = (if active \<noteq> lastActive this
                   then (executeCallbacks this (if active then ACTIVE else IDLE))\<lparr>lastActive := active\<rparr>
                   else this);
          userActive = isUserActive this1
      in if userActive \<noteq> userLastActive this1
         then (executeCallbacks this1 (if userActive then USER_ACTIVE else USER_IDLE))
                \<lparr>userLastActive := userActive\<rparr>
         else this1)"

subsection \<open>Dependency resolution\<close>

text \<open>
  The \<open>while (depIds.length)\<close> loop of \<open>getNotYetLoadedTransitiveDepIds_\<close>:
  \<open>depIds.pop()\<close> takes the last element, \<open>ids.unshift(depId)\<close> puts it in front of
  \<open>ids\<close>, and \<open>unshift.apply(depIds, deps)\<close> puts the dependencies, in their order, in
  front of \<open>depIds\<close>. The loop need not end (a cyclic graph), so it is a partial function.
\<close>

partial_function (option) collectDepIds ::
  "(string \<times> ModuleInfo) list \<Rightarrow> string list \<Rightarrow> string list \<Rightarrow> string list res"
where
  "collectDepIds m depIds ids =
     (if depIds = [] then Some (Inr ids)
      else (case map_of m (last depIds) of
              None \<Rightarrow> Some (Inl TypeError)
            | Some info \<Rightarrow>
                if \<not> loaded info
                then collectDepIds m (dependencyIds info @ butlast depIds) (last depIds # ids)
                else collectDepIds m (butlast depIds) ids))"

declare collectDepIds.simps [code]

definition getNotYetLoadedTransitiveDepIds :: "ModuleManager \<Rightarrow> string \<Rightarrow> string list res" where
  "getNotYetLoadedTransitiveDepIds this mid =
     (case getModuleInfo this mid of
        None \<Rightarrow> throw TypeError
      | Some info \<Rightarrow>
          andThen (collectDepIds (moduleInfoMap this) (dependencyIds info) [mid])
            (\<lambda>ids. ok (removeDuplicates ids)))"

subsection \<open>Starting a load\<close>

definition loadModule :: "ModuleManager \<Rightarrow> string \<Rightarrow> bool \<Rightarrow> ModuleManager res" where
  "loadModule this mid opt_isRetry =
     (case getModuleInfo this mid of
        None \<Rightarrow> throw TypeError
      | Some info \<Rightarrow>
          if loaded info then throw (ModuleAlreadyLoaded mid)
          else andThen (getNotYetLoadedTransitiveDepIds this mid) (\<lambda>ids.
            let split = (\<not> batchModeEnabled this \<and> length ids > 1);
                this1 = (if split
                         then this\<lparr>requestedModuleIdsQueue := tl ids @ requestedModuleIdsQueue this\<rparr>
                         else this);
                ids1 = (if split then [hd ids] else ids);
                this2 = (if \<not> opt_isRetry then this1\<lparr>consecutiveFailures := 0\<rparr> else this1);
                this3 = dispatchActiveIdleChangeIfNeeded (this2\<lparr>loadingModuleIds := ids1\<rparr>)
            in if loader this3 then ok (emit this3 [LoadModules ids1]) else throw TypeError))"

definition loadModuleOrEnqueue :: "ModuleManager \<Rightarrow> string \<Rightarrow> ModuleManager res" where
  "loadModuleOrEnqueue this mid =
     (if loadingModuleIds this = [] then loadModule this mid False
      else ok (dispatchActiveIdleChangeIfNeeded
                 (this\<lparr>requestedModuleIdsQueue := requestedModuleIdsQueue this @ [mid]\<rparr>)))"

text \<open>
  \<open>loadNextModule_\<close>: the queue is shifted until an id is found whose module is not
  loaded; that one is loaded. The queue gets shorter at every turn of the loop.
\<close>

function loadNextModule :: "ModuleManager \<Rightarrow> ModuleManager res" where
  "loadNextModule this =
     (case requestedModuleIdsQueue this of
        [] \<Rightarrow> ok (dispatchActiveIdleChangeIfNeeded this)
      | nextId # rest \<Rightarrow>
          (case getModuleInfo (this\<lparr>requestedModuleIdsQueue := rest\<rparr>) nextId of
             None \<Rightarrow> throw TypeError
           | Some info \<Rightarrow>
               if \<not> loaded info then loadModule (this\<lparr>requestedModuleIdsQueue := rest\<rparr>) nextId False
               else loadNextModule (this\<lparr>requestedModuleIdsQueue := rest\<rparr>)))"
  by pat_completeness auto
termination
  by (relation "measure (\<lambda>this. length (requestedModuleIdsQueue this))") auto

subsection \<open>Completion and failure\<close>

definition isModuleLoading :: "ModuleManager \<Rightarrow> string \<Rightarrow> bool" where
  "isModuleLoading this mid =
     (mid \<in> set (loadingModuleIds this) \<or> mid \<in> set (requestedModuleIdsQueue this))"

definition setLoaded :: "ModuleManager \<Rightarrow> string \<Rightarrow> ModuleManager res" where
  "setLoaded this mid =
     (let this1 = this\<lparr>userInitiatedLoadingModuleIds := remove1 mid (userInitiatedLoadingModuleIds this),
                       loadingModuleIds := remove1 mid (loadingModuleIds this)\<rparr>
      in case getModuleInfo this1 mid of
           None \<Rightarrow> throw TypeError
         | Some info \<Rightarrow>
             let this2 = emit (putModuleInfo this1 mid (fst (onLoad info (moduleContext this1))))
                              (snd (onLoad info (moduleContext this1)))
             in if loadingModuleIds this2 = []
                then andThen (loadNextModule this2) (\<lambda>t. ok (dispatchActiveIdleChangeIfNeeded t))
                else ok (dispatchActiveIdleChangeIfNeeded this2))"

text \<open>
  The \<open>goog.array.filter\<close> call of \<open>dispatchModuleLoadFailed_\<close>: the queued ids whose
  resolved list contains the failed id, in queue order. The failed id is \<open>None\<close> when
  \<open>loadingModuleIds_.pop()\<close> found the array empty and returned \<open>undefined\<close>.
\<close>

fun idsDependingOn :: "ModuleManager \<Rightarrow> string option \<Rightarrow> string list \<Rightarrow> string list res" where
  "idsDependingOn this failed [] = ok []"
| "idsDependingOn this failed (requestedId # rest) =
     andThen (getNotYetLoadedTransitiveDepIds this requestedId) (\<lambda>deps.
       andThen (idsDependingOn this failed rest) (\<lambda>kept.
         ok (if (case failed of None \<Rightarrow> False | Some f \<Rightarrow> f \<in> set deps)
             then requestedId # kept else kept)))"

definition cancelIds :: "ModuleManager \<Rightarrow> string list \<Rightarrow> ModuleManager" where
  "cancelIds this idsToCancel =
     fold (\<lambda>c t. t\<lparr>requestedModuleIdsQueue := remove1 c (requestedModuleIdsQueue t),
                    userInitiatedLoadingModuleIds := remove1 c (userInitiatedLoadingModuleIds t)\<rparr>)
       idsToCancel this"

definition errorNotifications :: "string list \<Rightarrow> string list \<Rightarrow> FailureType \<Rightarrow> event list" where
  "errorNotifications errorCallbacks idsToCancel cause =
     concat (map (\<lambda>cb. map (\<lambda>c. ErrorCallback cb c cause) idsToCancel) errorCallbacks)"

text \<open>
  \<open>if (id)\<close> holds for a string that is defined and not empty.
\<close>

definition dispatchModuleLoadFailed :: "ModuleManager \<Rightarrow> FailureType \<Rightarrow> ModuleManager res" where
  "dispatchModuleLoadFailed this cause =
     (let failed = (if loadingModuleIds this = [] then None else Some (last (loadingModuleIds this)));
          this1 = this\<lparr>loadingModuleIds := []\<rparr>
      in andThen (idsDependingOn this1 failed (requestedModuleIdsQueue this1)) (\<lambda>dependents.
           let idsToCancel = (case failed of
                                None \<Rightarrow> dependents
                              | Some f \<Rightarrow> if f \<noteq> [] then insertIfAbsent dependents f else dependents);
               this2 = cancelIds this1 idsToCancel;
               this3 = emit this2 (errorNotifications (callbackMap this2 ERROR) idsToCancel cause);
               this4 = (case failed of
                          None \<Rightarrow> this3
                        | Some f \<Rightarrow>
                            (case getModuleInfo this3 f of
                               None \<Rightarrow> this3
                             | Some info \<Rightarrow>
                                 emit (putModuleInfo this3 f (fst (onError info cause)))
                                      (snd (onError info cause))))
           in ok (dispatchActiveIdleChangeIfNeeded this4)))"

definition handleLoadError :: "ModuleManager \<Rightarrow> int \<Rightarrow> ModuleManager res" where
  "handleLoadError this status =
     (let this1 = this\<lparr>consecutiveFailures := consecutiveFailures this + 1\<rparr>
      in if status = 401
         then andThen (dispatchModuleLoadFailed this1 UNAUTHORIZED)
                (\<lambda>t. ok (t\<lparr>requestedModuleIdsQueue := []\<rparr>))
         else if status = 410
         then andThen (dispatchModuleLoadFailed this1 OLD_CODE_GONE) loadNextModule
         else if consecutiveFailures this1 \<ge> 3
         then andThen (dispatchModuleLoadFailed this1 CONSECUTIVE_FAILURES) loadNextModule
         else if loadingModuleIds this1 = [] then throw TypeError
         else loadModule (this1\<lparr>loadingModuleIds := []\<rparr>) (last (loadingModuleIds this1)) True)"

definition handleLoadTimeout :: "ModuleManager \<Rightarrow> ModuleManager res" where
  "handleLoadTimeout this = andThen (dispatchModuleLoadFailed this TIMEOUT) loadNextModule"

subsection \<open>The public requests\<close>

definition registerDeferred :: "ModuleManager \<Rightarrow> string \<Rightarrow> ModuleInfo \<Rightarrow> nat \<Rightarrow> ModuleManager" where
  "registerDeferred this mid info d =
     putModuleInfo this mid
       (registerErrbackOn (registerCallbackOn info (DeferredCallback d)) (DeferredErrback d))"

text \<open>
  \<open>load\<close> returns the deferred object it created (its number) and the manager.
  \<open>d.callback(this.moduleContext_)\<close> is the event \<open>Execute (DeferredCallback d) (Context ctx)\<close>.
\<close>

definition load :: "ModuleManager \<Rightarrow> string \<Rightarrow> (nat \<times> ModuleManager) res" where
  "load this moduleId =
     (case getModuleInfo this moduleId of
        None \<Rightarrow> throw TypeError
      | Some info \<Rightarrow>
          let d = deferredCount this;
              this0 = this\<lparr>deferredCount := Suc d\<rparr>
          in if loaded info
             then ok (d, emit this0 [Execute (DeferredCallback d) (Context (moduleContext this0))])
             else if isModuleLoading this0 moduleId
             then ok (d, registerDeferred this0 moduleId info d)
             else andThen (loadModuleOrEnqueue (registerDeferred this0 moduleId info d) moduleId)
                    (\<lambda>t. ok (d, t)))"

definition execOnLoad ::
  "ModuleManager \<Rightarrow> string \<Rightarrow> string \<Rightarrow> bool \<Rightarrow> bool \<Rightarrow> bool \<Rightarrow> ModuleManager res" where
  "execOnLoad this moduleId fn opt_noLoad opt_userInitiated opt_preferSynchronous =
     (case getModuleInfo this moduleId of
        None \<Rightarrow> throw TypeError
      | Some info \<Rightarrow>
          if loaded info
          then (if opt_preferSynchronous
                then ok (emit this [Execute (Fn fn) (Context (moduleContext this))])
                else ok (emit this [SetTimeout (RunCallback (Fn fn))]))
          else if isModuleLoading this moduleId
          then (let this1 = putModuleInfo this moduleId (registerCallbackOn info (Fn fn))
                in if opt_userInitiated
                   then ok (dispatchActiveIdleChangeIfNeeded
                              (this1\<lparr>userInitiatedLoadingModuleIds :=
                                        userInitiatedLoadingModuleIds this1 @ [moduleId]\<rparr>))
                   else ok this1)
          else (let this1 = putModuleInfo this moduleId (registerCallbackOn info (Fn fn))
                in if \<not> opt_noLoad
                   then loadModuleOrEnqueue
                          (if opt_userInitiated
                           then this1\<lparr>userInitiatedLoadingModuleIds :=
                                         userInitiatedLoadingModuleIds this1 @ [moduleId]\<rparr>
                           else this1)
                          moduleId
                   else ok this1))"

definition preloadModule :: "ModuleManager \<Rightarrow> string \<Rightarrow> nat \<times> ModuleManager" where
  "preloadModule this mid =
     (deferredCount this,
      emit (this\<lparr>deferredCount := Suc (deferredCount this)\<rparr>)
        [SetTimeout (RunPreload mid (deferredCount this))])"

definition loadModuleOrEnqueueIfNotLoadedOrLoading ::
  "ModuleManager \<Rightarrow> string \<Rightarrow> nat \<Rightarrow> ModuleManager res" where
  "loadModuleOrEnqueueIfNotLoadedOrLoading this mid d =
     (case getModuleInfo this mid of
        None \<Rightarrow> throw TypeError
      | Some info \<Rightarrow>
          if loaded info
          then ok (emit this [Execute (DeferredCallback d) (Context (moduleContext this))])
          else if \<not> isModuleLoading (registerDeferred this mid info d) mid
          then loadModuleOrEnqueue (registerDeferred this mid info d) mid
          else ok (registerDeferred this mid info d))"

definition registerCallbackOfType :: "ModuleManager \<Rightarrow> CallbackType \<Rightarrow> string \<Rightarrow> ModuleManager" where
  "registerCallbackOfType this ty fn =
     this\<lparr>callbackMap := (callbackMap this)(ty := callbackMap this ty @ [fn])\<rparr>"

definition registerCallback :: "ModuleManager \<Rightarrow> CallbackType list \<Rightarrow> string \<Rightarrow> ModuleManager" where
  "registerCallback this types fn = fold (\<lambda>ty t. registerCallbackOfType t ty fn) types this"

definition beforeLoadModuleCode :: "ModuleManager \<Rightarrow> string \<Rightarrow> ModuleManager" where
  "beforeLoadModuleCode this mid = this\<lparr>currentlyLoadingModule := Some mid\<rparr>"

definition afterLoadModuleCode :: "ModuleManager \<Rightarrow> string \<Rightarrow> ModuleManager" where
  "afterLoadModuleCode this mid = this\<lparr>currentlyLoadingModule := None\<rparr>"

definition registerInitializationCallback :: "ModuleManager \<Rightarrow> string \<Rightarrow> ModuleManager res" where
  "registerInitializationCallback this fn =
     (case currentlyLoadingModule this of
        None \<Rightarrow> ok this
      | Some cur \<Rightarrow>
          if cur = [] then ok this
          else (case getModuleInfo this cur of
                  None \<Rightarrow> throw TypeError
                | Some info \<Rightarrow> ok (putModuleInfo this cur (registerEarlyCallbackOn info (Fn fn)))))"

text \<open>
  One call from outside: a request of the application, a notification of a loaded module,
  a report of the loader, a timer that fires.
\<close>

datatype operation =
    Load string
  | ExecOnLoad string string bool bool bool
  | PreloadModule string
  | PreloadTimer string nat
  | SetLoaded string
  | HandleLoadError int
  | HandleLoadTimeout
  | RegisterCallback "CallbackType list" string
  | RegisterInitializationCallback string
  | BeforeLoadModuleCode string
  | AfterLoadModuleCode string
  | SetBatchModeEnabled bool
  | SetAllModuleInfo "(string \<times> string list) list"
  | SetModuleContext "string option"
  | SetLoader

fun step :: "ModuleManager \<Rightarrow> operation \<Rightarrow> ModuleManager res" where
  "step this (Load mid) = andThen (load this mid) (\<lambda>r. ok (snd r))"
| "step this (ExecOnLoad mid fn noLoad userInitiated preferSynchronous) =
     execOnLoad this mid fn noLoad userInitiated preferSynchronous"
| "step this (PreloadModule mid) = ok (snd (preloadModule this mid))"
| "step this (PreloadTimer mid d) = loadModuleOrEnqueueIfNotLoadedOrLoading this mid d"
| "step this (SetLoaded mid) = setLoaded this mid"
| "step this (HandleLoadError status) = handleLoadError this status"
| "step this HandleLoadTimeout = handleLoadTimeout this"
| "step this (RegisterCallback types fn) = ok (registerCallback this types fn)"
| "step this (RegisterInitializationCallback fn) = registerInitializationCallback this fn"
| "step this (BeforeLoadModuleCode mid) = ok (beforeLoadModuleCode this mid)"
| "step this (AfterLoadModuleCode mid) = ok (afterLoadModuleCode this mid)"
| "step this (SetBatchModeEnabled enabled) = ok (setBatchModeEnabled this enabled)"
| "step this (SetAllModuleInfo infoMap) = ok (setAllModuleInfo this infoMap)"
| "step this (SetModuleContext ctx) = ok (setModuleContext this ctx)"
| "step this SetLoader = ok (setLoader this)"

fun run :: "ModuleManager \<Rightarrow> operation list \<Rightarrow> ModuleManager res" where
  "run this [] = ok this"
| "run this (operation # rest) = andThen (step this operation) (\<lambda>t. run t rest)"

subsection \<open>Notions the properties are stated with\<close>

text \<open>\<open>(x, y) \<in> dependsOn m\<close>: module \<open>x\<close> of the registry \<open>m\<close> lists \<open>y\<close> as a dependency.\<close>

definition dependsOn :: "(string \<times> ModuleInfo) list \<Rightarrow> (string \<times> string) set" where
  "dependsOn m = {(x, y). \<exists>info. map_of m x = Some info \<and> y \<in> set (dependencyIds info)}"

text \<open>
  A module of the registry that is not yet loaded, and one that is loaded. An id the
  registry does not know is neither.
\<close>

definition notLoadedIn :: "(string \<times> ModuleInfo) list \<Rightarrow> string \<Rightarrow> bool" where
  "notLoadedIn m x = (case map_of m x of None \<Rightarrow> False | Some info \<Rightarrow> \<not> loaded info)"

definition isLoadedIn :: "(string \<times> ModuleInfo) list \<Rightarrow> string \<Rightarrow> bool" where
  "isLoadedIn m x = (case map_of m x of None \<Rightarrow> False | Some info \<Rightarrow> loaded info)"

text \<open>The dependency edges that lead to a module that is not yet loaded.\<close>

definition notLoadedDeps :: "(string \<times> ModuleInfo) list \<Rightarrow> (string \<times> string) set" where
  "notLoadedDeps m = {(x, y). (x, y) \<in> dependsOn m \<and> notLoadedIn m y}"

text \<open>
  A dependency graph: every id listed as a dependency is a module of the registry.
\<close>

definition depsKnown :: "(string \<times> ModuleInfo) list \<Rightarrow> bool" where
  "depsKnown m = (\<forall>x y. (x, y) \<in> dependsOn m \<longrightarrow> map_of m y \<noteq> None)"

text \<open>
  The loaded modules are closed under dependencies: what a loaded module requires is
  loaded (the spec's reading of a dependency: an id "this module requires before it may be
  considered loaded"). The manager does not enforce it: \<open>setLoaded\<close> marks any module.
\<close>

definition depsClosed :: "(string \<times> ModuleInfo) list \<Rightarrow> bool" where
  "depsClosed m = (\<forall>x y. (x, y) \<in> dependsOn m \<longrightarrow> isLoadedIn m x \<longrightarrow> isLoadedIn m y)"

text \<open>
  \<open>precedes y x xs\<close>: \<open>y\<close> stands in \<open>xs\<close> to the left of the first \<open>x\<close>. In a list
  without duplicates that is: \<open>y\<close> stands before \<open>x\<close>.
\<close>

definition precedes :: "'a \<Rightarrow> 'a \<Rightarrow> 'a list \<Rightarrow> bool" where
  "precedes y x xs = (y \<in> set (takeWhile (\<lambda>z. z \<noteq> x) xs))"

text \<open>What the dependency walk collects from a work-list entry \<open>d\<close>.\<close>

definition reachNL :: "(string \<times> ModuleInfo) list \<Rightarrow> string \<Rightarrow> string set" where
  "reachNL m d = (if notLoadedIn m d then {y. (d, y) \<in> (notLoadedDeps m)\<^sup>*} else {})"

text \<open>
  The invariant of the walk: every occurrence of an id in the collected list has each of
  its not-yet-loaded dependencies to its left, or still in the work list.
\<close>

definition depsToTheLeft :: "(string \<times> ModuleInfo) list \<Rightarrow> string list \<Rightarrow> string list \<Rightarrow> bool" where
  "depsToTheLeft m depIds ids =
     (\<forall>a x b y. ids = a @ x # b \<longrightarrow> (x, y) \<in> notLoadedDeps m \<longrightarrow> y \<in> set a \<or> y \<in> set depIds)"

subsection \<open>Example registries\<close>

text \<open>A diamond: \<open>C\<close> requires \<open>B\<close> and \<open>A\<close>, and \<open>B\<close> requires \<open>A\<close>.\<close>

definition diamondModules :: "(string \<times> string list) list" where
  "diamondModules = [(''A'', []), (''B'', [''A'']), (''C'', [''B'', ''A''])]"

definition diamond :: ModuleManager where
  "diamond = setLoader (setAllModuleInfo newModuleManager diamondModules)"

text \<open>
  A chain \<open>A\<close> requires \<open>B\<close> requires \<open>C\<close>, after \<open>setLoaded('B')\<close> was called while
  \<open>C\<close> is not loaded.
\<close>

definition chainModules :: "(string \<times> string list) list" where
  "chainModules = [(''A'', [''B'']), (''B'', [''C'']), (''C'', [])]"

definition chainAfterB :: ModuleManager where
  "chainAfterB = newModuleManager
     \<lparr>moduleInfoMap := [(''A'', newModuleInfo [''B'']),
                        (''B'', (newModuleInfo [''C''])\<lparr>loaded := True\<rparr>),
                        (''C'', newModuleInfo [])]\<rparr>"

text \<open>
  What the manager did to its environment, read off the events: the id lists the loader's
  \<open>loadModules\<close> was called with, the calls \<open>callback(ERROR, id, cause)\<close> of the
  registered error callbacks, and the calls \<open>callback(type)\<close> of the callbacks of the
  other types, each in order.
\<close>

fun loaderCalls :: "event list \<Rightarrow> string list list" where
  "loaderCalls [] = []"
| "loaderCalls (LoadModules ids # es) = ids # loaderCalls es"
| "loaderCalls (e # es) = loaderCalls es"

fun errorCallbacksIn :: "event list \<Rightarrow> (string \<times> string \<times> FailureType) list" where
  "errorCallbacksIn [] = []"
| "errorCallbacksIn (ErrorCallback fn mid cause # es) = (fn, mid, cause) # errorCallbacksIn es"
| "errorCallbacksIn (e # es) = errorCallbacksIn es"

fun managerCallbacksIn :: "event list \<Rightarrow> (CallbackType \<times> string) list" where
  "managerCallbacksIn [] = []"
| "managerCallbacksIn (ManagerCallback ty fn # es) = (ty, fn) # managerCallbacksIn es"
| "managerCallbacksIn (e # es) = managerCallbacksIn es"

text \<open>
  \<open>lastActive_\<close> says whether modules are loading, and \<open>userLastActive_\<close> whether
  user-initiated modules are.
\<close>

definition flagsInSync :: "ModuleManager \<Rightarrow> bool" where
  "flagsInSync this =
     (lastActive this = (loadingModuleIds this \<noteq> [])
      \<and> userLastActive this = (userInitiatedLoadingModuleIds this \<noteq> []))"

text \<open>
  \<open>dependsOnFailed this f r\<close>: the resolved list of \<open>r\<close> contains \<open>f\<close> (the test of the
  filter in \<open>dispatchModuleLoadFailed_\<close>).
\<close>

definition dependsOnFailed :: "ModuleManager \<Rightarrow> string \<Rightarrow> string \<Rightarrow> bool" where
  "dependsOnFailed this f r =
     (\<exists>deps. getNotYetLoadedTransitiveDepIds this r = Some (Inr deps) \<and> f \<in> set deps)"

text \<open>
  Two registries with the same modules, dependency lists and loaded flags (they may differ
  in the pending callbacks).
\<close>

definition sameGraph :: "(string \<times> ModuleInfo) list \<Rightarrow> (string \<times> ModuleInfo) list \<Rightarrow> bool" where
  "sameGraph m m' =
     (\<forall>x. map_option (\<lambda>i. (dependencyIds i, loaded i)) (map_of m x)
          = map_option (\<lambda>i. (dependencyIds i, loaded i)) (map_of m' x))"

text \<open>
  The id \<open>dispatchModuleLoadFailed_\<close> takes for the failed one: the last entry of
  \<open>loadingModuleIds_\<close>; and the ids it cancels: the queued ids whose resolved list
  contains it, then the failed id itself.
\<close>

definition failedId :: "ModuleManager \<Rightarrow> string option" where
  "failedId this = (if loadingModuleIds this = [] then None else Some (last (loadingModuleIds this)))"

definition idsToCancel :: "ModuleManager \<Rightarrow> string list" where
  "idsToCancel this =
     (case failedId this of
        None \<Rightarrow> []
      | Some f \<Rightarrow>
          if f \<noteq> [] then insertIfAbsent (filter (dependsOnFailed this f) (requestedModuleIdsQueue this)) f
          else filter (dependsOnFailed this f) (requestedModuleIdsQueue this))"

text \<open>
  \<open>observe f r\<close>: the field \<open>f\<close> of the manager a call returned.
\<close>

definition observe :: "(ModuleManager \<Rightarrow> 'a) \<Rightarrow> ModuleManager res \<Rightarrow> 'a res" where
  "observe f r = andThen r (\<lambda>t. ok (f t))"

text \<open>
  The failure kind a report of the loader ends in: a status 401 or 410, any other status
  when it is the third failure in a row, a timeout. \<open>None\<close> for a report that is
  retried and for every other call.
\<close>

fun failureKind :: "ModuleManager \<Rightarrow> operation \<Rightarrow> FailureType option" where
  "failureKind this (HandleLoadError status) =
     (if status = 401 then Some UNAUTHORIZED
      else if status = 410 then Some OLD_CODE_GONE
      else if consecutiveFailures this + 1 \<ge> 3 then Some CONSECUTIVE_FAILURES
      else None)"
| "failureKind this HandleLoadTimeout = Some TIMEOUT"
| "failureKind this operation = None"

text \<open>
  The manager after a sequence of calls on a new manager (the new manager when one of
  them throws; the examples below say that none does).
\<close>

definition stateAfter :: "operation list \<Rightarrow> ModuleManager" where
  "stateAfter ops = (case run newModuleManager ops of Some (Inr s) \<Rightarrow> s | _ \<Rightarrow> newModuleManager)"

text \<open>
  Example runs. \<open>A\<close> requires \<open>B\<close>; \<open>load('A')\<close> sends \<open>B\<close> to the loader and
  queues \<open>A\<close>, and \<open>load('C')\<close> queues the unrelated \<open>C\<close>. In the second run \<open>A\<close> is
  requested twice by the user through \<open>execOnLoad\<close>. In the third \<open>B\<close> is queued behind
  the unrelated \<open>A\<close>.
\<close>

definition dependentQueuedOps :: "operation list" where
  "dependentQueuedOps =
     [SetAllModuleInfo [(''A'', [''B'']), (''B'', []), (''C'', [])], SetLoader,
      RegisterCallback [ERROR] ''onError'', Load ''A'', Load ''C'']"

definition twiceUserInitiatedOps :: "operation list" where
  "twiceUserInitiatedOps =
     [SetAllModuleInfo [(''A'', [''B'']), (''B'', [])], SetLoader,
      ExecOnLoad ''A'' ''f'' False True False, ExecOnLoad ''A'' ''g'' False True False]"

definition independentQueuedOps :: "operation list" where
  "independentQueuedOps =
     [SetAllModuleInfo [(''A'', []), (''B'', [])], SetLoader,
      RegisterCallback [ERROR] ''onError'', Load ''A'', Load ''B'']"

text \<open>
  The registry of the spec's example scenario: \<open>{A: [], B: [A], C: [B]}\<close>.
\<close>

definition chainOfThree :: "(string \<times> string list) list" where
  "chainOfThree = [(''A'', []), (''B'', [''A'']), (''C'', [''B''])]"

text \<open>
  The calls of claim C5: a \<open>load(id)\<close>, a \<open>setLoaded(id)\<close> notification, a batch-mode
  setting.
\<close>

fun requestOrNotification :: "operation \<Rightarrow> bool" where
  "requestOrNotification (Load mid) = True"
| "requestOrNotification (SetLoaded mid) = True"
| "requestOrNotification (SetBatchModeEnabled enabled) = True"
| "requestOrNotification operation = False"


definition queuedBehindOps :: "operation list" where
  "queuedBehindOps =
     [SetAllModuleInfo [(''A'', []), (''B'', []), (''C'', [''B''])], SetLoader,
      Load ''A'', Load ''C'', Load ''B'']"

definition loadedOps :: "operation list" where
  "loadedOps = [SetAllModuleInfo [(''A'', [])], SetModuleContext (Some ''context''), SetLoaded ''A'']"

definition cancelledOps :: "operation list" where
  "cancelledOps =
     [SetAllModuleInfo [(''A'', [''B'']), (''B'', [])], SetLoader,
      RegisterCallback [ERROR] ''onError'', Load ''A'', HandleLoadError 410]"






definition changeCallbacks ::
  "(CallbackType \<Rightarrow> string list) \<Rightarrow> bool \<times> bool \<Rightarrow> bool \<times> bool \<Rightarrow> (CallbackType \<times> string) list" where
  "changeCallbacks cm old new =
     (if fst new \<noteq> fst old
      then map (Pair (if fst new then ACTIVE else IDLE)) (cm (if fst new then ACTIVE else IDLE))
      else [])
     @ (if snd new \<noteq> snd old
        then map (Pair (if snd new then USER_ACTIVE else USER_IDLE))
                 (cm (if snd new then USER_ACTIVE else USER_IDLE))
        else [])"







section \<open>Proofs\<close>

subsection \<open>Results and the dependency walk\<close>

declare loadNextModule.simps [simp del]

lemma andThen_simps:
  "andThen None f = None"
  "andThen (Some (Inl e)) f = Some (Inl e)"
  "andThen (Some (Inr x)) f = f x"
  "andThen (ok x) f = f x"
  "andThen (throw e) f = throw e"
  by (simp_all add: andThen_def ok_def throw_def)

lemma andThen_eq_ok:
  "andThen r f = Some (Inr y) \<longleftrightarrow> (\<exists>x. r = Some (Inr x) \<and> f x = Some (Inr y))"
  by (auto simp: andThen_def split: option.splits sum.splits)

lemma collectDepIds_Nil: "collectDepIds m [] ids = Some (Inr ids)"
  by (subst collectDepIds.simps) simp

lemma collectDepIds_step:
  "depIds \<noteq> [] \<Longrightarrow>
   collectDepIds m depIds ids =
     (case map_of m (last depIds) of
        None \<Rightarrow> Some (Inl TypeError)
      | Some info \<Rightarrow>
          if \<not> loaded info
          then collectDepIds m (dependencyIds info @ butlast depIds) (last depIds # ids)
          else collectDepIds m (butlast depIds) ids)"
  by (subst collectDepIds.simps) simp

lemma collectDepIds_snoc:
  "collectDepIds m (rest @ [d]) ids =
     (case map_of m d of
        None \<Rightarrow> Some (Inl TypeError)
      | Some info \<Rightarrow>
          if \<not> loaded info
          then collectDepIds m (dependencyIds info @ rest) (d # ids)
          else collectDepIds m rest ids)"
  by (simp add: collectDepIds_step split: option.split)

lemma collectDepIds_induct [consumes 1, case_names Nil Unknown Loaded NotLoaded]:
  assumes run: "collectDepIds m depIds ids = Some r"
    and nil: "\<And>ids. P [] ids (Inr ids)"
    and unknown: "\<And>rest d ids. map_of m d = None \<Longrightarrow> P (rest @ [d]) ids (Inl TypeError)"
    and isloaded: "\<And>rest d info ids r. map_of m d = Some info \<Longrightarrow> loaded info \<Longrightarrow>
        collectDepIds m rest ids = Some r \<Longrightarrow> P rest ids r \<Longrightarrow> P (rest @ [d]) ids r"
    and notloaded: "\<And>rest d info ids r. map_of m d = Some info \<Longrightarrow> \<not> loaded info \<Longrightarrow>
        collectDepIds m (dependencyIds info @ rest) (d # ids) = Some r \<Longrightarrow>
        P (dependencyIds info @ rest) (d # ids) r \<Longrightarrow> P (rest @ [d]) ids r"
  shows "P depIds ids r"
proof -
  have "collectDepIds m depIds ids = Some r \<and> (m = m \<longrightarrow> P depIds ids r)"
  proof (rule collectDepIds.raw_induct[where
        P = "\<lambda>m' depIds ids r. collectDepIds m' depIds ids = Some r \<and> (m' = m \<longrightarrow> P depIds ids r)",
        OF _ run], goal_cases)
    case (1 f m' depIds ids r)
    show ?case
    proof (cases "depIds = []")
      case True
      with 1(2) show ?thesis by (auto simp: collectDepIds_Nil nil)
    next
      case False
      then obtain rest d where snoc: "depIds = rest @ [d]"
        by (metis rev_exhaust)
      show ?thesis
      proof (cases "map_of m' d")
        case None
        with 1(2) snoc show ?thesis by (auto simp: collectDepIds_snoc unknown)
      next
        case (Some info)
        show ?thesis
        proof (cases "loaded info")
          case True
          with 1(2) snoc Some have "f m' rest ids = Some r" by simp
          from 1(1)[OF this] True Some snoc show ?thesis
            by (auto simp: collectDepIds_snoc intro: isloaded)
        next
          case False
          with 1(2) snoc Some have "f m' (dependencyIds info @ rest) (d # ids) = Some r" by simp
          from 1(1)[OF this] False Some snoc show ?thesis
            by (auto simp: collectDepIds_snoc intro: notloaded)
        qed
      qed
    qed
  qed
  then show ?thesis by simp
qed

lemma finite_dependsOn: "finite (dependsOn m)"
proof -
  have "dependsOn m \<subseteq> fst ` set m \<times> (\<Union>p\<in>set m. set (dependencyIds (snd p)))"
    by (force simp: dependsOn_def dest: map_of_SomeD)
  then show ?thesis by (rule finite_subset) simp
qed

lemma collectDepIds_terminates:
  assumes "acyclic (dependsOn m)"
  shows "\<exists>r. collectDepIds m depIds ids = Some r"
proof -
  have "wf ((dependsOn m)\<inverse>)"
    using finite_dependsOn assms by (rule finite_acyclic_wf_converse)
  then have wf: "wf (mult1 ((dependsOn m)\<inverse>))" by (rule wf_mult1)
  show ?thesis
    using wf
  proof (induction "mset depIds" arbitrary: depIds ids rule: wf_induct_rule)
    case less
    show ?case
    proof (cases "depIds = []")
      case True
      then show ?thesis by (simp add: collectDepIds_Nil)
    next
      case False
      then obtain rest d where snoc: "depIds = rest @ [d]"
        by (metis rev_exhaust)
      show ?thesis
      proof (cases "map_of m d")
        case None
        with snoc show ?thesis by (simp add: collectDepIds_snoc)
      next
        case (Some info)
        show ?thesis
        proof (cases "loaded info")
          case True
          have "(mset rest, mset depIds) \<in> mult1 ((dependsOn m)\<inverse>)"
            by (rule mult1I[where a = d and ?M0.0 = "mset rest" and K = "{#}"]) (simp_all add: snoc)
          from less[OF this] True Some snoc show ?thesis
            by (simp add: collectDepIds_snoc)
        next
          case False
          have "(mset (dependencyIds info @ rest), mset depIds) \<in> mult1 ((dependsOn m)\<inverse>)"
            by (rule mult1I[where a = d and ?M0.0 = "mset rest" and K = "mset (dependencyIds info)"])
               (use Some in \<open>auto simp: snoc dependsOn_def\<close>)
          from less[OF this] False Some snoc show ?thesis
            by (simp add: collectDepIds_snoc)
        qed
      qed
    qed
  qed
qed

subsection \<open>Removing duplicates, and the order of first occurrences\<close>

lemma set_removeDuplicates: "set (removeDuplicates xs) = set xs"
  by (induction xs rule: removeDuplicates.induct) auto

lemma distinct_removeDuplicates: "distinct (removeDuplicates xs)"
  by (induction xs rule: removeDuplicates.induct) (auto simp: set_removeDuplicates)

lemma removeDuplicates_snoc:
  "x \<notin> set xs \<Longrightarrow> removeDuplicates (xs @ [x]) = removeDuplicates xs @ [x]"
  by (induction xs rule: removeDuplicates.induct) auto

lemma takeWhile_filter_commute:
  "(\<And>z. \<not> P z \<Longrightarrow> Q z) \<Longrightarrow> takeWhile P (filter Q xs) = filter Q (takeWhile P xs)"
  by (induction xs) auto

lemma set_takeWhile_removeDuplicates:
  "set (takeWhile (\<lambda>z. z \<noteq> x) (removeDuplicates xs)) = set (takeWhile (\<lambda>z. z \<noteq> x) xs)"
proof (induction xs rule: removeDuplicates.induct)
  case 1
  show ?case by simp
next
  case (2 h t)
  show ?case
  proof (cases "h = x")
    case True
    then show ?thesis by simp
  next
    case False
    have "takeWhile (\<lambda>z. z \<noteq> x) (filter (\<lambda>y. y \<noteq> h) t) = filter (\<lambda>y. y \<noteq> h) (takeWhile (\<lambda>z. z \<noteq> x) t)"
      using False by (intro takeWhile_filter_commute) auto
    with 2 False show ?thesis by auto
  qed
qed

lemma precedes_removeDuplicates: "precedes y x (removeDuplicates xs) = precedes y x xs"
  by (simp add: precedes_def set_takeWhile_removeDuplicates)

lemma precedes_in_set: "precedes y x xs \<Longrightarrow> y \<in> set xs"
  by (auto simp: precedes_def dest: set_takeWhileD)

lemma precedes_trans:
  "precedes z x xs \<Longrightarrow> precedes y z xs \<Longrightarrow> precedes y x xs"
proof (induction xs)
  case Nil
  then show ?case by (simp add: precedes_def)
next
  case (Cons h t)
  from Cons.prems(1) have hx: "h \<noteq> x" and zx: "z = h \<or> precedes z x t"
    by (cases "h = x"; simp add: precedes_def)+
  from Cons.prems(2) have hz: "h \<noteq> z" and yz: "y = h \<or> precedes y z t"
    by (cases "h = z"; simp add: precedes_def)+
  from zx hz have "precedes z x t" by simp
  with yz Cons.IH have "y = h \<or> precedes y x t" by blast
  with hx show ?case by (auto simp: precedes_def)
qed

lemma precedes_first_occurrence:
  "x \<notin> set a \<Longrightarrow> precedes y x (a @ x # b) = (y \<in> set a)"
proof -
  assume "x \<notin> set a"
  then have "takeWhile (\<lambda>z. z \<noteq> x) (a @ x # b) = a"
    by (induction a) auto
  then show ?thesis by (simp add: precedes_def)
qed

subsection \<open>What the dependency walk collects\<close>

lemma reachNL_unfold:
  assumes "map_of m d = Some info" "\<not> loaded info"
  shows "reachNL m d = insert d (\<Union>e\<in>set (dependencyIds info). reachNL m e)"
proof -
  have nl: "notLoadedIn m d" using assms by (simp add: notLoadedIn_def)
  have edge: "\<And>e. (d, e) \<in> notLoadedDeps m \<longleftrightarrow> e \<in> set (dependencyIds info) \<and> notLoadedIn m e"
    using assms by (auto simp: notLoadedDeps_def dependsOn_def)
  show ?thesis
  proof (intro set_eqI iffI)
    fix y assume "y \<in> reachNL m d"
    then have "(d, y) \<in> (notLoadedDeps m)\<^sup>*" by (simp add: reachNL_def nl)
    then show "y \<in> insert d (\<Union>e\<in>set (dependencyIds info). reachNL m e)"
    proof (cases rule: converse_rtranclE)
      case base
      then show ?thesis by simp
    next
      case (step e)
      then show ?thesis by (auto simp: edge reachNL_def)
    qed
  next
    fix y assume "y \<in> insert d (\<Union>e\<in>set (dependencyIds info). reachNL m e)"
    then show "y \<in> reachNL m d"
      using nl by (auto simp: reachNL_def edge split: if_splits intro: converse_rtrancl_into_rtrancl)
  qed
qed

lemma reachNL_loaded: "map_of m d = Some info \<Longrightarrow> loaded info \<Longrightarrow> reachNL m d = {}"
  by (simp add: reachNL_def notLoadedIn_def)

lemma collectDepIds_set:
  assumes "collectDepIds m depIds ids = Some (Inr res)"
  shows "\<exists>pre. res = pre @ ids \<and> set pre = (\<Union>d\<in>set depIds. reachNL m d)"
proof -
  have "\<forall>res. r = Inr res \<longrightarrow> (\<exists>pre. res = pre @ ids \<and> set pre = (\<Union>d\<in>set depIds. reachNL m d))"
    if "collectDepIds m depIds ids = Some r" for r
    using that
  proof (induction rule: collectDepIds_induct)
    case (Nil ids)
    then show ?case by simp
  next
    case (Unknown rest d ids)
    then show ?case by simp
  next
    case (Loaded rest d info ids r)
    then show ?case by (auto simp: reachNL_loaded)
  next
    case (NotLoaded rest d info ids r)
    show ?case
    proof (intro allI impI)
      fix res assume "r = Inr res"
      with NotLoaded.IH obtain pre where
        pre: "res = pre @ d # ids" "set pre = (\<Union>e\<in>set (dependencyIds info @ rest). reachNL m e)"
        by blast
      have "res = (pre @ [d]) @ ids" using pre by simp
      moreover have "set (pre @ [d]) = (\<Union>e\<in>set (rest @ [d]). reachNL m e)"
        using pre(2) reachNL_unfold[OF NotLoaded.hyps(1,2)] by auto
      ultimately show "\<exists>pre. res = pre @ ids \<and> set pre = (\<Union>e\<in>set (rest @ [d]). reachNL m e)"
        by blast
    qed
  qed
  with assms show ?thesis by blast
qed

lemma collectDepIds_order:
  assumes "collectDepIds m depIds ids = Some (Inr res)" "depsToTheLeft m depIds ids"
  shows "depsToTheLeft m [] res"
proof -
  have "depsToTheLeft m depIds ids \<longrightarrow> (\<forall>res. r = Inr res \<longrightarrow> depsToTheLeft m [] res)"
    if "collectDepIds m depIds ids = Some r" for r
    using that
  proof (induction rule: collectDepIds_induct)
    case (Nil ids)
    then show ?case by simp
  next
    case (Unknown rest d ids)
    then show ?case by simp
  next
    case (Loaded rest d info ids r)
    have "depsToTheLeft m rest ids" if "depsToTheLeft m (rest @ [d]) ids"
      using that Loaded.hyps(1,2)
      by (fastforce simp: depsToTheLeft_def notLoadedDeps_def notLoadedIn_def)
    with Loaded.IH show ?case by blast
  next
    case (NotLoaded rest d info ids r)
    have "depsToTheLeft m (dependencyIds info @ rest) (d # ids)" if inv: "depsToTheLeft m (rest @ [d]) ids"
      unfolding depsToTheLeft_def
    proof (intro allI impI)
      fix a x b y
      assume split: "d # ids = a @ x # b" and edge: "(x, y) \<in> notLoadedDeps m"
      show "y \<in> set a \<or> y \<in> set (dependencyIds info @ rest)"
      proof (cases a)
        case Nil
        with split have "x = d" by simp
        with edge NotLoaded.hyps(1) show ?thesis
          by (auto simp: notLoadedDeps_def dependsOn_def)
      next
        case (Cons h a')
        with split have "h = d" "ids = a' @ x # b" by simp_all
        with inv edge have "y \<in> set a' \<or> y \<in> set (rest @ [d])"
          unfolding depsToTheLeft_def by blast
        then show ?thesis using Cons \<open>h = d\<close> by auto
      qed
    qed
    with NotLoaded.IH show ?case by blast
  qed
  with assms show ?thesis by blast
qed

lemma collectDepIds_no_TypeError:
  assumes "collectDepIds m depIds ids = Some r" "depsKnown m" "\<forall>d\<in>set depIds. map_of m d \<noteq> None"
  shows "\<exists>res. r = Inr res"
proof -
  have "(\<forall>d\<in>set depIds. map_of m d \<noteq> None) \<longrightarrow> (\<exists>res. r = Inr res)"
    using assms(1)
  proof (induction rule: collectDepIds_induct)
    case (Nil ids)
    then show ?case by simp
  next
    case (Unknown rest d ids)
    then show ?case by simp
  next
    case (Loaded rest d info ids r)
    then show ?case by simp
  next
    case (NotLoaded rest d info ids r)
    have "\<forall>e\<in>set (dependencyIds info). map_of m e \<noteq> None"
      using assms(2) NotLoaded.hyps(1) by (auto simp: depsKnown_def dependsOn_def)
    with NotLoaded.IH show ?case by auto
  qed
  with assms(3) show ?thesis by blast
qed

lemma notLoadedDeps_subset: "notLoadedDeps m \<subseteq> dependsOn m"
  by (auto simp: notLoadedDeps_def)

lemma notLoadedDeps_target: "(x, y) \<in> (notLoadedDeps m)\<^sup>+ \<Longrightarrow> notLoadedIn m y"
  by (induction rule: trancl_induct) (auto simp: notLoadedDeps_def)

lemma closed_source_notLoaded:
  assumes "depsClosed m" "(y, z) \<in> dependsOn m" "notLoadedIn m z"
  shows "notLoadedIn m y"
proof -
  from assms(2) obtain info where "map_of m y = Some info" by (auto simp: dependsOn_def)
  moreover have "\<not> isLoadedIn m y"
    using assms by (auto simp: depsClosed_def isLoadedIn_def notLoadedIn_def split: option.splits)
  ultimately show ?thesis by (simp add: isLoadedIn_def notLoadedIn_def)
qed

lemma closed_rtrancl:
  assumes "depsClosed m" "(x, y) \<in> (dependsOn m)\<^sup>*"
  shows "notLoadedIn m y \<longrightarrow> (x, y) \<in> (notLoadedDeps m)\<^sup>*"
  using assms(2)
proof (induction rule: rtrancl_induct)
  case base
  show ?case by simp
next
  case (step y z)
  show ?case
  proof
    assume nz: "notLoadedIn m z"
    with step.hyps(2) assms(1) have "notLoadedIn m y" by (blast intro: closed_source_notLoaded)
    with step.IH have "(x, y) \<in> (notLoadedDeps m)\<^sup>*" by simp
    moreover have "(y, z) \<in> notLoadedDeps m" using step.hyps(2) nz by (simp add: notLoadedDeps_def)
    ultimately show "(x, z) \<in> (notLoadedDeps m)\<^sup>*" by (rule rtrancl_into_rtrancl)
  qed
qed

lemma closed_trancl:
  assumes "depsClosed m" "(x, y) \<in> (dependsOn m)\<^sup>+" "notLoadedIn m y"
  shows "(x, y) \<in> (notLoadedDeps m)\<^sup>+"
proof -
  from assms(2) obtain z where z: "(x, z) \<in> (dependsOn m)\<^sup>*" "(z, y) \<in> dependsOn m"
    by (auto dest: tranclD2)
  have "notLoadedIn m z" using assms(1,3) z(2) by (blast intro: closed_source_notLoaded)
  with closed_rtrancl[OF assms(1) z(1)] have "(x, z) \<in> (notLoadedDeps m)\<^sup>*" by simp
  moreover have "(z, y) \<in> notLoadedDeps m" using z(2) assms(3) by (simp add: notLoadedDeps_def)
  ultimately show ?thesis by (rule rtrancl_into_trancl1)
qed

lemma resolve_facts:
  assumes acyc: "acyclic (dependsOn m)"
    and known: "depsKnown m"
    and info: "map_of m mid = Some info" and nl: "\<not> loaded info"
  shows "\<exists>raw. collectDepIds m (dependencyIds info) [mid] = Some (Inr raw)
      \<and> removeDuplicates raw \<noteq> [] \<and> last (removeDuplicates raw) = mid
      \<and> set raw = {y. (mid, y) \<in> (notLoadedDeps m)\<^sup>*}
      \<and> (\<forall>x y. x \<in> set raw \<and> (x, y) \<in> (notLoadedDeps m)\<^sup>+ \<longrightarrow> precedes y x raw)"
proof -
  let ?R = "notLoadedDeps m"
  obtain r where r: "collectDepIds m (dependencyIds info) [mid] = Some r"
    using collectDepIds_terminates[OF acyc] by blast
  have "\<forall>d\<in>set (dependencyIds info). map_of m d \<noteq> None"
    using known info by (auto simp: depsKnown_def dependsOn_def)
  with collectDepIds_no_TypeError[OF r known] obtain raw where raw: "r = Inr raw" by blast
  with r have run: "collectDepIds m (dependencyIds info) [mid] = Some (Inr raw)" by simp
  from collectDepIds_set[OF run] obtain pre where
    pre: "raw = pre @ [mid]" "set pre = (\<Union>d\<in>set (dependencyIds info). reachNL m d)" by blast
  have nlmid: "notLoadedIn m mid" using info nl by (simp add: notLoadedIn_def)
  have reach: "reachNL m mid = insert mid (set pre)"
    using reachNL_unfold[OF info nl] pre(2) by simp
  have setraw: "set raw = {y. (mid, y) \<in> ?R\<^sup>*}"
    using reach pre(1) nlmid by (auto simp: reachNL_def)
  have "mid \<notin> set pre"
  proof
    assume "mid \<in> set pre"
    then obtain d where d: "d \<in> set (dependencyIds info)" "mid \<in> reachNL m d"
      using pre(2) by blast
    then have "notLoadedIn m d" "(d, mid) \<in> ?R\<^sup>*" by (auto simp: reachNL_def split: if_splits)
    moreover have "(mid, d) \<in> ?R" using d(1) info \<open>notLoadedIn m d\<close>
      by (auto simp: notLoadedDeps_def dependsOn_def)
    ultimately have "(mid, mid) \<in> ?R\<^sup>+" by (meson rtrancl_into_trancl2)
    then have "(mid, mid) \<in> (dependsOn m)\<^sup>+"
      using trancl_mono[OF _ notLoadedDeps_subset] by blast
    with acyc show False by (simp add: acyclic_def)
  qed
  then have rd: "removeDuplicates raw = removeDuplicates pre @ [mid]"
    using pre(1) by (simp add: removeDuplicates_snoc)
  have init: "depsToTheLeft m (dependencyIds info) [mid]"
    unfolding depsToTheLeft_def
  proof (intro allI impI)
    fix a x b y assume "[mid] = a @ x # b" "(x, y) \<in> ?R"
    then have "a = []" "x = mid" by (auto simp: Cons_eq_append_conv)
    with \<open>(x, y) \<in> ?R\<close> info show "y \<in> set a \<or> y \<in> set (dependencyIds info)"
      by (auto simp: notLoadedDeps_def dependsOn_def)
  qed
  have left: "depsToTheLeft m [] raw" by (rule collectDepIds_order[OF run init])
  have direct: "precedes y x raw" if "x \<in> set raw" "(x, y) \<in> ?R" for x y
  proof -
    from split_list_first[OF that(1)] obtain a b where ab: "raw = a @ x # b" "x \<notin> set a" by blast
    with left that(2) have "y \<in> set a" unfolding depsToTheLeft_def by fastforce
    with ab show ?thesis by (simp add: precedes_first_occurrence)
  qed
  have trans: "precedes y x raw" if "(x, y) \<in> ?R\<^sup>+" "x \<in> set raw" for x y
    using that
  proof (induction rule: trancl_induct)
    case (base y)
    then show ?case by (simp add: direct)
  next
    case (step y z)
    then have xy: "precedes y x raw" by simp
    then have "y \<in> set raw" by (rule precedes_in_set)
    with step.hyps(2) have "precedes z y raw" by (simp add: direct)
    with xy show ?case by (rule precedes_trans)
  qed
  have "removeDuplicates raw \<noteq> []" "last (removeDuplicates raw) = mid"
    using rd by simp_all
  moreover have "\<forall>x y. x \<in> set raw \<and> (x, y) \<in> ?R\<^sup>+ \<longrightarrow> precedes y x raw"
    using trans by blast
  ultimately show ?thesis
    using run setraw by blast
qed

subsection \<open>Evaluating the examples\<close>

lemmas eval_defs =
  ok_def throw_def andThen_def emit_def insertIfAbsent_def newModuleInfo_def registerCallbackOn_def registerErrbackOn_def
  registerEarlyCallbackOn_def onLoad_def onError_def newModuleManager_def setBatchModeEnabled_def
  setAllModuleInfo_def getModuleInfo_def putModuleInfo_def setLoader_def setModuleContext_def
  isActive_def isUserActive_def executeCallbacks_def dispatchActiveIdleChangeIfNeeded_def
  getNotYetLoadedTransitiveDepIds_def loadModule_def loadModuleOrEnqueue_def isModuleLoading_def
  setLoaded_def cancelIds_def errorNotifications_def dispatchModuleLoadFailed_def handleLoadError_def
  handleLoadTimeout_def registerDeferred_def load_def execOnLoad_def preloadModule_def
  loadModuleOrEnqueueIfNotLoadedOrLoading_def registerCallbackOfType_def registerCallback_def
  beforeLoadModuleCode_def afterLoadModuleCode_def registerInitializationCallback_def
  collectDepIds_Nil collectDepIds_step loadNextModule.simps Let_def

lemma diamond_map:
  "moduleInfoMap diamond =
     [(''A'', newModuleInfo []), (''B'', newModuleInfo [''A'']), (''C'', newModuleInfo [''B'', ''A''])]"
  by (simp add: diamond_def diamondModules_def setLoader_def setAllModuleInfo_def newModuleManager_def)

lemma diamond_resolve: "getNotYetLoadedTransitiveDepIds diamond ''C'' = Some (Inr [''A'', ''B'', ''C''])"
  by (simp add: getNotYetLoadedTransitiveDepIds_def getModuleInfo_def diamond_map newModuleInfo_def
      andThen_def ok_def collectDepIds_Nil collectDepIds_step)

lemma diamond_acyclic: "acyclic (dependsOn (moduleInfoMap diamond))"
proof (rule acyclicI_order)
  fix a b assume "(a, b) \<in> dependsOn (moduleInfoMap diamond)"
  then show "(if b = ''A'' then 0 else if b = ''B'' then 1 else (2::nat))
           < (if a = ''A'' then 0 else if a = ''B'' then 1 else (2::nat))"
    by (auto simp: dependsOn_def diamond_map newModuleInfo_def split: if_splits)
qed

lemma diamond_known: "depsKnown (moduleInfoMap diamond)"
  by (auto simp: depsKnown_def dependsOn_def diamond_map newModuleInfo_def split: if_splits)

lemma diamond_closed: "depsClosed (moduleInfoMap diamond)"
  by (auto simp: depsClosed_def isLoadedIn_def dependsOn_def diamond_map newModuleInfo_def split: if_splits)

lemma chain_run:
  "run newModuleManager [SetAllModuleInfo chainModules, SetLoaded ''B''] = Some (Inr chainAfterB)"
  by (simp add: eval_defs chainModules_def chainAfterB_def)

lemma chain_resolve: "getNotYetLoadedTransitiveDepIds chainAfterB ''A'' = Some (Inr [''A''])"
  by (simp add: eval_defs chainAfterB_def)

lemma chain_path: "(''A'', ''C'') \<in> (dependsOn (moduleInfoMap chainAfterB))\<^sup>+"
proof -
  have "(''A'', ''B'') \<in> dependsOn (moduleInfoMap chainAfterB)"
    by (simp add: dependsOn_def chainAfterB_def newModuleManager_def newModuleInfo_def)
  moreover have "(''B'', ''C'') \<in> dependsOn (moduleInfoMap chainAfterB)"
    by (simp add: dependsOn_def chainAfterB_def newModuleManager_def newModuleInfo_def)
  ultimately show ?thesis by (rule trancl_into_trancl[OF r_into_trancl])
qed

lemma chain_acyclic: "acyclic (dependsOn (moduleInfoMap chainAfterB))"
proof (rule acyclicI_order)
  fix a b assume "(a, b) \<in> dependsOn (moduleInfoMap chainAfterB)"
  then show "(if b = ''C'' then 0 else if b = ''B'' then 1 else (2::nat))
           < (if a = ''C'' then 0 else if a = ''B'' then 1 else (2::nat))"
    by (auto simp: dependsOn_def chainAfterB_def newModuleManager_def newModuleInfo_def
        split: if_splits)
qed

subsection \<open>Claim C1: what the dependency walk returns\<close>

text \<open>
  C1, as the code has it. For every acyclic dependency graph and every not-yet-loaded id,
  \<open>getNotYetLoadedTransitiveDepIds_(id)\<close> returns a list that ends with the id, has no
  duplicates, consists of exactly the ids that can be reached from the id along dependency
  edges through not-yet-loaded modules only, gives every id the position of its earliest
  occurrence in the list the walk collected (what stands to the left of an id in the result
  is what stands to the left of its first occurrence in the collected list), and has every
  id to the left of the ids that depend on it through not-yet-loaded modules.
  When moreover every dependency of a loaded module is loaded, the list consists of exactly
  the not-yet-loaded ids the id transitively depends on, and every element stands to the
  left of all elements that (transitively) depend on it.
\<close>

theorem getNotYetLoadedTransitiveDepIds_order:
  assumes "acyclic (dependsOn (moduleInfoMap this))"
    and "depsKnown (moduleInfoMap this)"
    and "getModuleInfo this mid = Some info" and "\<not> loaded info"
  shows "\<exists>raw ids.
      collectDepIds (moduleInfoMap this) (dependencyIds info) [mid] = Some (Inr raw)
    \<and> getNotYetLoadedTransitiveDepIds this mid = Some (Inr ids)
    \<and> ids \<noteq> [] \<and> last ids = mid \<and> distinct ids
    \<and> set ids = {y. (mid, y) \<in> (notLoadedDeps (moduleInfoMap this))\<^sup>*}
    \<and> (\<forall>x y. precedes y x ids = precedes y x raw)
    \<and> (\<forall>x y. x \<in> set ids \<and> (x, y) \<in> (notLoadedDeps (moduleInfoMap this))\<^sup>+ \<longrightarrow> precedes y x ids)
    \<and> (depsClosed (moduleInfoMap this) \<longrightarrow>
          set ids = {y. (mid, y) \<in> (dependsOn (moduleInfoMap this))\<^sup>* \<and> notLoadedIn (moduleInfoMap this) y}
        \<and> (\<forall>x y. x \<in> set ids \<and> y \<in> set ids \<and> (x, y) \<in> (dependsOn (moduleInfoMap this))\<^sup>+
              \<longrightarrow> precedes y x ids))"
proof -
  let ?m = "moduleInfoMap this"
  from assms(3) have info: "map_of ?m mid = Some info" by (simp add: getModuleInfo_def)
  from resolve_facts[OF assms(1,2) info assms(4)] obtain raw where
    run: "collectDepIds ?m (dependencyIds info) [mid] = Some (Inr raw)"
    and ne: "removeDuplicates raw \<noteq> []" and lst: "last (removeDuplicates raw) = mid"
    and setraw: "set raw = {y. (mid, y) \<in> (notLoadedDeps ?m)\<^sup>*}"
    and ord: "\<And>x y. x \<in> set raw \<Longrightarrow> (x, y) \<in> (notLoadedDeps ?m)\<^sup>+ \<Longrightarrow> precedes y x raw"
    by blast
  let ?ids = "removeDuplicates raw"
  have res: "getNotYetLoadedTransitiveDepIds this mid = Some (Inr ?ids)"
    using assms(3) run by (simp add: getNotYetLoadedTransitiveDepIds_def andThen_simps ok_def)
  have nlmid: "notLoadedIn ?m mid" using info assms(4) by (simp add: notLoadedIn_def)
  have nlall: "notLoadedIn ?m y" if "y \<in> set raw" for y
  proof -
    from that setraw have "(mid, y) \<in> (notLoadedDeps ?m)\<^sup>*" by simp
    then show ?thesis using nlmid by (auto simp: rtrancl_eq_or_trancl dest: notLoadedDeps_target)
  qed
  have closedset: "set ?ids = {y. (mid, y) \<in> (dependsOn ?m)\<^sup>* \<and> notLoadedIn ?m y}"
    if c: "depsClosed ?m"
  proof (intro set_eqI iffI)
    fix y assume "y \<in> set ?ids"
    then have y: "y \<in> set raw" by (simp add: set_removeDuplicates)
    then have "(mid, y) \<in> (dependsOn ?m)\<^sup>*"
      using setraw rtrancl_mono[OF notLoadedDeps_subset] by blast
    with nlall[OF y] show "y \<in> {y. (mid, y) \<in> (dependsOn ?m)\<^sup>* \<and> notLoadedIn ?m y}" by simp
  next
    fix y assume "y \<in> {y. (mid, y) \<in> (dependsOn ?m)\<^sup>* \<and> notLoadedIn ?m y}"
    then show "y \<in> set ?ids"
      using closed_rtrancl[OF c] setraw by (simp add: set_removeDuplicates)
  qed
  have closedord: "precedes y x ?ids"
    if c: "depsClosed ?m" and "x \<in> set ?ids" "y \<in> set ?ids" "(x, y) \<in> (dependsOn ?m)\<^sup>+" for x y
  proof -
    from that have "notLoadedIn ?m y" by (simp add: set_removeDuplicates nlall)
    with c that(4) have "(x, y) \<in> (notLoadedDeps ?m)\<^sup>+" by (rule closed_trancl)
    with that(2) show ?thesis by (simp add: precedes_removeDuplicates set_removeDuplicates ord)
  qed
  have "set ?ids = {y. (mid, y) \<in> (notLoadedDeps ?m)\<^sup>*}"
    by (simp add: set_removeDuplicates setraw)
  moreover have "\<forall>x y. x \<in> set ?ids \<and> (x, y) \<in> (notLoadedDeps ?m)\<^sup>+ \<longrightarrow> precedes y x ?ids"
    by (simp add: precedes_removeDuplicates set_removeDuplicates ord)
  moreover have "\<forall>x y. precedes y x ?ids = precedes y x raw"
    by (simp add: precedes_removeDuplicates)
  moreover have "depsClosed ?m \<longrightarrow>
          set ?ids = {y. (mid, y) \<in> (dependsOn ?m)\<^sup>* \<and> notLoadedIn ?m y}
        \<and> (\<forall>x y. x \<in> set ?ids \<and> y \<in> set ?ids \<and> (x, y) \<in> (dependsOn ?m)\<^sup>+
              \<longrightarrow> precedes y x ?ids)"
    using closedset closedord by blast
  moreover note run res ne lst distinct_removeDuplicates[of raw]
  ultimately show ?thesis
    by (intro exI[of _ raw] exI[of _ ?ids] conjI)
qed

text \<open>
  The theorem at the diamond, for \<open>C\<close>: the walk collects \<open>A, B, A, C\<close> and the result is
  \<open>A, B, C\<close>.
\<close>

theorem getNotYetLoadedTransitiveDepIds_order_witness:
  "acyclic (dependsOn (moduleInfoMap diamond))
   \<and> depsKnown (moduleInfoMap diamond)
   \<and> depsClosed (moduleInfoMap diamond)
   \<and> getModuleInfo diamond ''C'' = Some (newModuleInfo [''B'', ''A''])
   \<and> getNotYetLoadedTransitiveDepIds diamond ''C'' = Some (Inr [''A'', ''B'', ''C''])
   \<and> last [''A'', ''B'', ''C''] = ''C''
   \<and> set [''A'', ''B'', ''C''] =
       {y. (''C'', y) \<in> (dependsOn (moduleInfoMap diamond))\<^sup>* \<and> notLoadedIn (moduleInfoMap diamond) y}
   \<and> precedes ''A'' ''B'' [''A'', ''B'', ''C'']"
proof -
  have info: "getModuleInfo diamond ''C'' = Some (newModuleInfo [''B'', ''A''])"
    by (simp add: getModuleInfo_def diamond_map)
  have nl: "\<not> loaded (newModuleInfo [''B'', ''A''])"
    by (simp add: newModuleInfo_def)
  from getNotYetLoadedTransitiveDepIds_order[OF diamond_acyclic diamond_known info nl]
  obtain ids where
    ids: "getNotYetLoadedTransitiveDepIds diamond ''C'' = Some (Inr ids)"
    and lst: "last ids = ''C''"
    and closed: "depsClosed (moduleInfoMap diamond) \<longrightarrow>
          set ids = {y. (''C'', y) \<in> (dependsOn (moduleInfoMap diamond))\<^sup>*
                        \<and> notLoadedIn (moduleInfoMap diamond) y}
        \<and> (\<forall>x y. x \<in> set ids \<and> y \<in> set ids \<and> (x, y) \<in> (dependsOn (moduleInfoMap diamond))\<^sup>+
              \<longrightarrow> precedes y x ids)"
    by blast
  from ids have eq: "ids = [''A'', ''B'', ''C'']" by (simp add: diamond_resolve)
  have edge: "(''B'', ''A'') \<in> (dependsOn (moduleInfoMap diamond))\<^sup>+"
    by (rule r_into_trancl) (simp add: dependsOn_def diamond_map newModuleInfo_def)
  from closed diamond_closed eq have
    "set [''A'', ''B'', ''C''] =
       {y. (''C'', y) \<in> (dependsOn (moduleInfoMap diamond))\<^sup>* \<and> notLoadedIn (moduleInfoMap diamond) y}"
    by simp
  moreover from closed diamond_closed eq edge have "precedes ''A'' ''B'' [''A'', ''B'', ''C'']"
    by simp
  moreover from lst eq have "last [''A'', ''B'', ''C''] = ''C''" by simp
  ultimately show ?thesis
    using diamond_acyclic diamond_known diamond_closed info diamond_resolve by blast
qed

text \<open>
  C1 as stated fails where a loaded module has a dependency that is not loaded: the walk
  does not enter a loaded module. After \<open>setLoaded('B')\<close> in the chain, \<open>A\<close> transitively
  depends on the not-yet-loaded \<open>C\<close>, and the list for \<open>A\<close> is \<open>A\<close> alone.
\<close>

theorem getNotYetLoadedTransitiveDepIds_skips_loaded_counterexample:
  "run newModuleManager [SetAllModuleInfo chainModules, SetLoaded ''B''] = Some (Inr chainAfterB)
   \<and> acyclic (dependsOn (moduleInfoMap chainAfterB))
   \<and> notLoadedIn (moduleInfoMap chainAfterB) ''A''
   \<and> (''A'', ''C'') \<in> (dependsOn (moduleInfoMap chainAfterB))\<^sup>+
   \<and> notLoadedIn (moduleInfoMap chainAfterB) ''C''
   \<and> getNotYetLoadedTransitiveDepIds chainAfterB ''A'' = Some (Inr [''A''])
   \<and> ''C'' \<notin> set [''A'']"
proof -
  have "notLoadedIn (moduleInfoMap chainAfterB) ''A''" "notLoadedIn (moduleInfoMap chainAfterB) ''C''"
    by (simp_all add: notLoadedIn_def chainAfterB_def newModuleManager_def newModuleInfo_def)
  then show ?thesis
    using chain_run chain_acyclic chain_path chain_resolve by simp
qed

subsection \<open>Claim C10: the dependency walk ends on an acyclic graph\<close>

text \<open>
  C10. For every acyclic dependency graph, \<open>getNotYetLoadedTransitiveDepIds_\<close> terminates:
  it returns or throws, whatever the id and whatever is loaded; and when every dependency
  id is a module of the registry and the id is one, its work list runs empty and it
  returns a list.
\<close>

theorem getNotYetLoadedTransitiveDepIds_terminates:
  assumes "acyclic (dependsOn (moduleInfoMap this))"
  shows "(\<exists>r. getNotYetLoadedTransitiveDepIds this mid = Some r)
       \<and> (depsKnown (moduleInfoMap this) \<and> getModuleInfo this mid \<noteq> None
            \<longrightarrow> (\<exists>ids. getNotYetLoadedTransitiveDepIds this mid = Some (Inr ids)))"
proof -
  let ?m = "moduleInfoMap this"
  have terminates: "\<exists>r. getNotYetLoadedTransitiveDepIds this mid = Some r"
  proof (cases "getModuleInfo this mid")
    case None
    then show ?thesis by (simp add: getNotYetLoadedTransitiveDepIds_def throw_def)
  next
    case (Some info)
    from collectDepIds_terminates[OF assms] obtain r where
      "collectDepIds ?m (dependencyIds info) [mid] = Some r" by blast
    with Some show ?thesis
      by (cases r) (simp_all add: getNotYetLoadedTransitiveDepIds_def andThen_simps ok_def)
  qed
  have "\<exists>ids. getNotYetLoadedTransitiveDepIds this mid = Some (Inr ids)"
    if known: "depsKnown ?m" and "getModuleInfo this mid \<noteq> None"
  proof -
    from that obtain info where info: "getModuleInfo this mid = Some info" by blast
    from collectDepIds_terminates[OF assms] obtain r where
      r: "collectDepIds ?m (dependencyIds info) [mid] = Some r" by blast
    have "\<forall>d\<in>set (dependencyIds info). map_of ?m d \<noteq> None"
      using known info by (auto simp: depsKnown_def dependsOn_def getModuleInfo_def)
    with collectDepIds_no_TypeError[OF r known] obtain raw where "r = Inr raw" by blast
    with r info show ?thesis
      by (simp add: getNotYetLoadedTransitiveDepIds_def andThen_simps ok_def)
  qed
  with terminates show ?thesis by blast
qed

theorem getNotYetLoadedTransitiveDepIds_terminates_witness:
  "acyclic (dependsOn (moduleInfoMap diamond))
   \<and> depsKnown (moduleInfoMap diamond)
   \<and> getModuleInfo diamond ''C'' \<noteq> None
   \<and> (\<exists>ids. getNotYetLoadedTransitiveDepIds diamond ''C'' = Some (Inr ids))"
proof -
  have info: "getModuleInfo diamond ''C'' \<noteq> None"
    by (simp add: getModuleInfo_def diamond_map)
  with getNotYetLoadedTransitiveDepIds_terminates[OF diamond_acyclic, of "''C''"] diamond_known
  have "\<exists>ids. getNotYetLoadedTransitiveDepIds diamond ''C'' = Some (Inr ids)" by blast
  with diamond_acyclic diamond_known info show ?thesis by blast
qed

lemma loaderCalls_append: "loaderCalls (xs @ ys) = loaderCalls xs @ loaderCalls ys"
  by (induction xs rule: loaderCalls.induct) auto

lemma errorCallbacksIn_append: "errorCallbacksIn (xs @ ys) = errorCallbacksIn xs @ errorCallbacksIn ys"
  by (induction xs rule: errorCallbacksIn.induct) auto

lemma managerCallbacksIn_append:
  "managerCallbacksIn (xs @ ys) = managerCallbacksIn xs @ managerCallbacksIn ys"
  by (induction xs rule: managerCallbacksIn.induct) auto

lemma loaderCalls_ManagerCallback: "loaderCalls (map (ManagerCallback ty) fns) = []"
  by (induction fns) auto

lemma errorCallbacksIn_ManagerCallback: "errorCallbacksIn (map (ManagerCallback ty) fns) = []"
  by (induction fns) auto


lemma loaderCalls_Execute: "loaderCalls (map (\<lambda>cb. Execute cb a) cbs) = []"
  by (induction cbs) auto

lemma errorCallbacksIn_Execute: "errorCallbacksIn (map (\<lambda>cb. Execute cb a) cbs) = []"
  by (induction cbs) auto

lemma managerCallbacksIn_Execute: "managerCallbacksIn (map (\<lambda>cb. Execute cb a) cbs) = []"
  by (induction cbs) auto

lemma loaderCalls_errorNotifications: "loaderCalls (errorNotifications fns ids cause) = []"
proof -
  have "loaderCalls (map (\<lambda>c. ErrorCallback cb c cause) ids) = []" for cb
    by (induction ids) auto
  then show ?thesis
    unfolding errorNotifications_def by (induction fns) (auto simp: loaderCalls_append)
qed


lemma errorCallbacksIn_errorNotifications:
  "errorCallbacksIn (errorNotifications fns ids cause) =
     concat (map (\<lambda>cb. map (\<lambda>c. (cb, c, cause)) ids) fns)"
proof -
  have "errorCallbacksIn (map (\<lambda>c. ErrorCallback cb c cause) ids) = map (\<lambda>c. (cb, c, cause)) ids" for cb
    by (induction ids) auto
  then show ?thesis
    unfolding errorNotifications_def by (induction fns) (auto simp: errorCallbacksIn_append)
qed

subsection \<open>dispatchActiveIdleChangeIfNeeded\<close>

lemma dispatch_fields [simp]:
  "moduleInfoMap (dispatchActiveIdleChangeIfNeeded s) = moduleInfoMap s"
  "loadingModuleIds (dispatchActiveIdleChangeIfNeeded s) = loadingModuleIds s"
  "requestedModuleIdsQueue (dispatchActiveIdleChangeIfNeeded s) = requestedModuleIdsQueue s"
  "userInitiatedLoadingModuleIds (dispatchActiveIdleChangeIfNeeded s) = userInitiatedLoadingModuleIds s"
  "callbackMap (dispatchActiveIdleChangeIfNeeded s) = callbackMap s"
  "batchModeEnabled (dispatchActiveIdleChangeIfNeeded s) = batchModeEnabled s"
  "loader (dispatchActiveIdleChangeIfNeeded s) = loader s"
  "consecutiveFailures (dispatchActiveIdleChangeIfNeeded s) = consecutiveFailures s"
  "moduleContext (dispatchActiveIdleChangeIfNeeded s) = moduleContext s"
  "currentlyLoadingModule (dispatchActiveIdleChangeIfNeeded s) = currentlyLoadingModule s"
  "deferredCount (dispatchActiveIdleChangeIfNeeded s) = deferredCount s"
  by (simp_all add: dispatchActiveIdleChangeIfNeeded_def executeCallbacks_def emit_def Let_def)

lemma dispatch_flags [simp]:
  "lastActive (dispatchActiveIdleChangeIfNeeded s) = (loadingModuleIds s \<noteq> [])"
  "userLastActive (dispatchActiveIdleChangeIfNeeded s) = (userInitiatedLoadingModuleIds s \<noteq> [])"
  by (auto simp: dispatchActiveIdleChangeIfNeeded_def executeCallbacks_def emit_def Let_def
      isActive_def isUserActive_def)

lemma flagsInSync_dispatch [simp]: "flagsInSync (dispatchActiveIdleChangeIfNeeded s)"
  by (simp add: flagsInSync_def)

lemma dispatch_events:
  "events (dispatchActiveIdleChangeIfNeeded s) =
     events s
     @ (if isActive s \<noteq> lastActive s
        then map (ManagerCallback (if isActive s then ACTIVE else IDLE))
                 (callbackMap s (if isActive s then ACTIVE else IDLE))
        else [])
     @ (if isUserActive s \<noteq> userLastActive s
        then map (ManagerCallback (if isUserActive s then USER_ACTIVE else USER_IDLE))
                 (callbackMap s (if isUserActive s then USER_ACTIVE else USER_IDLE))
        else [])"
  by (simp add: dispatchActiveIdleChangeIfNeeded_def executeCallbacks_def emit_def Let_def
      isActive_def isUserActive_def)

lemma dispatch_loaderCalls [simp]:
  "loaderCalls (events (dispatchActiveIdleChangeIfNeeded s)) = loaderCalls (events s)"
  by (simp add: dispatch_events loaderCalls_append loaderCalls_ManagerCallback)

lemma dispatch_errorCallbacksIn [simp]:
  "errorCallbacksIn (events (dispatchActiveIdleChangeIfNeeded s)) = errorCallbacksIn (events s)"
  by (simp add: dispatch_events errorCallbacksIn_append errorCallbacksIn_ManagerCallback)


subsection \<open>resolution reads the registry only\<close>

lemma getNotYetLoadedTransitiveDepIds_cong:
  "moduleInfoMap a = moduleInfoMap b \<Longrightarrow>
   getNotYetLoadedTransitiveDepIds a mid = getNotYetLoadedTransitiveDepIds b mid"
  by (simp add: getNotYetLoadedTransitiveDepIds_def getModuleInfo_def split: option.split)

lemma resolve_okD:
  assumes "getNotYetLoadedTransitiveDepIds this mid = Some (Inr ids)"
  shows "\<exists>info raw. getModuleInfo this mid = Some info
      \<and> collectDepIds (moduleInfoMap this) (dependencyIds info) [mid] = Some (Inr raw)
      \<and> ids = removeDuplicates raw"
proof (cases "getModuleInfo this mid")
  case None
  with assms show ?thesis by (simp add: getNotYetLoadedTransitiveDepIds_def throw_def)
next
  case (Some info)
  with assms have "andThen (collectDepIds (moduleInfoMap this) (dependencyIds info) [mid])
            (\<lambda>ids. ok (removeDuplicates ids)) = Some (Inr ids)"
    by (simp add: getNotYetLoadedTransitiveDepIds_def)
  then obtain raw where "collectDepIds (moduleInfoMap this) (dependencyIds info) [mid] = Some (Inr raw)"
    "ids = removeDuplicates raw"
    by (auto simp: andThen_eq_ok ok_def)
  with Some show ?thesis by blast
qed

lemma resolve_contains_root:
  assumes "getNotYetLoadedTransitiveDepIds this mid = Some (Inr ids)"
  shows "mid \<in> set ids"
proof -
  from resolve_okD[OF assms] obtain info :: ModuleInfo and raw where
    run: "collectDepIds (moduleInfoMap this) (dependencyIds info) [mid] = Some (Inr raw)"
    and ids: "ids = removeDuplicates raw"
    by blast
  from collectDepIds_set[OF run] ids show ?thesis by (auto simp: set_removeDuplicates)
qed

lemma resolve_not_loaded:
  assumes "getNotYetLoadedTransitiveDepIds this mid = Some (Inr ids)" "x \<in> set ids" "x \<noteq> mid"
  shows "notLoadedIn (moduleInfoMap this) x"
proof -
  from resolve_okD[OF assms(1)] obtain info :: ModuleInfo and raw where
    run: "collectDepIds (moduleInfoMap this) (dependencyIds info) [mid] = Some (Inr raw)"
    and ids: "ids = removeDuplicates raw"
    by blast
  from collectDepIds_set[OF run] ids assms(2,3) obtain d where "x \<in> reachNL (moduleInfoMap this) d"
    by (auto simp: set_removeDuplicates)
  then have "notLoadedIn (moduleInfoMap this) d" "(d, x) \<in> (notLoadedDeps (moduleInfoMap this))\<^sup>*"
    by (auto simp: reachNL_def split: if_splits)
  then show ?thesis
    by (auto simp: rtrancl_eq_or_trancl dest: notLoadedDeps_target)
qed

subsection \<open>loadModule\<close>

lemma loadModule_result:
  assumes "loadModule this mid isRetry = Some (Inr this')"
  shows "\<exists>info ids. getModuleInfo this mid = Some info \<and> \<not> loaded info
      \<and> getNotYetLoadedTransitiveDepIds this mid = Some (Inr ids)
      \<and> loader this
      \<and> loadingModuleIds this' = (if \<not> batchModeEnabled this \<and> length ids > 1 then [hd ids] else ids)
      \<and> requestedModuleIdsQueue this' =
            (if \<not> batchModeEnabled this \<and> length ids > 1 then tl ids else []) @ requestedModuleIdsQueue this
      \<and> consecutiveFailures this' = (if isRetry then consecutiveFailures this else 0)
      \<and> loaderCalls (events this') = loaderCalls (events this) @ [loadingModuleIds this']
      \<and> errorCallbacksIn (events this') = errorCallbacksIn (events this)
      \<and> moduleInfoMap this' = moduleInfoMap this
      \<and> userInitiatedLoadingModuleIds this' = userInitiatedLoadingModuleIds this
      \<and> callbackMap this' = callbackMap this
      \<and> batchModeEnabled this' = batchModeEnabled this
      \<and> loader this' = loader this
      \<and> flagsInSync this'"
proof (cases "getModuleInfo this mid")
  case None
  with assms show ?thesis by (simp add: loadModule_def throw_def)
next
  case (Some info)
  show ?thesis
  proof (cases "loaded info")
    case True
    with assms Some show ?thesis by (simp add: loadModule_def throw_def)
  next
    case False
    from assms Some False have
      "andThen (getNotYetLoadedTransitiveDepIds this mid) (\<lambda>ids.
            let split = (\<not> batchModeEnabled this \<and> length ids > 1);
                this1 = (if split
                         then this\<lparr>requestedModuleIdsQueue := tl ids @ requestedModuleIdsQueue this\<rparr>
                         else this);
                ids1 = (if split then [hd ids] else ids);
                this2 = (if \<not> isRetry then this1\<lparr>consecutiveFailures := 0\<rparr> else this1);
                this3 = dispatchActiveIdleChangeIfNeeded (this2\<lparr>loadingModuleIds := ids1\<rparr>)
            in if loader this3 then ok (emit this3 [LoadModules ids1]) else throw TypeError)
       = Some (Inr this')"
      by (simp add: loadModule_def)
    then obtain ids where
      ids: "getNotYetLoadedTransitiveDepIds this mid = Some (Inr ids)"
      and res: "(let split = (\<not> batchModeEnabled this \<and> length ids > 1);
                this1 = (if split
                         then this\<lparr>requestedModuleIdsQueue := tl ids @ requestedModuleIdsQueue this\<rparr>
                         else this);
                ids1 = (if split then [hd ids] else ids);
                this2 = (if \<not> isRetry then this1\<lparr>consecutiveFailures := 0\<rparr> else this1);
                this3 = dispatchActiveIdleChangeIfNeeded (this2\<lparr>loadingModuleIds := ids1\<rparr>)
            in if loader this3 then ok (emit this3 [LoadModules ids1]) else throw TypeError)
                  = Some (Inr this')"
      unfolding andThen_eq_ok by blast
    note nl = \<open>\<not> loaded info\<close>
    show ?thesis
    proof (cases "\<not> batchModeEnabled this \<and> length ids > 1")
      case split: True
      show ?thesis
      proof (cases isRetry)
        case True
        with split show ?thesis
          using res Some nl ids
          by (intro exI[of _ info] exI[of _ ids])
             (auto simp: Let_def ok_def throw_def emit_def flagsInSync_def loaderCalls_append
                errorCallbacksIn_append split: if_splits)
      next
        case False
        with split show ?thesis
          using res Some nl ids
          by (intro exI[of _ info] exI[of _ ids])
             (auto simp: Let_def ok_def throw_def emit_def flagsInSync_def loaderCalls_append
                errorCallbacksIn_append split: if_splits)
      qed
    next
      case nosplit: False
      show ?thesis
      proof (cases isRetry)
        case True
        with nosplit show ?thesis
          using res Some nl ids
          by (intro exI[of _ info] exI[of _ ids])
             (auto simp: Let_def ok_def throw_def emit_def flagsInSync_def loaderCalls_append
                errorCallbacksIn_append split: if_splits)
      next
        case False
        with nosplit show ?thesis
          using res Some nl ids
          by (intro exI[of _ info] exI[of _ ids])
             (auto simp: Let_def ok_def throw_def emit_def flagsInSync_def loaderCalls_append
                errorCallbacksIn_append split: if_splits)
      qed
    qed
  qed
qed

lemma loadNextModule_Nil:
  "requestedModuleIdsQueue this = [] \<Longrightarrow> loadNextModule this = ok (dispatchActiveIdleChangeIfNeeded this)"
  by (subst loadNextModule.simps) simp

lemma loadNextModule_Cons:
  "requestedModuleIdsQueue this = nextId # rest \<Longrightarrow>
   loadNextModule this =
     (case getModuleInfo (this\<lparr>requestedModuleIdsQueue := rest\<rparr>) nextId of
        None \<Rightarrow> throw TypeError
      | Some info \<Rightarrow>
          if \<not> loaded info then loadModule (this\<lparr>requestedModuleIdsQueue := rest\<rparr>) nextId False
          else loadNextModule (this\<lparr>requestedModuleIdsQueue := rest\<rparr>))"
  by (subst loadNextModule.simps) simp

lemma loadNextModule_result:
  assumes "loadNextModule this = Some (Inr this')"
  shows "\<exists>skipped. (\<forall>x\<in>set skipped. isLoadedIn (moduleInfoMap this) x)
     \<and> ((requestedModuleIdsQueue this = skipped
          \<and> this' = dispatchActiveIdleChangeIfNeeded (this\<lparr>requestedModuleIdsQueue := []\<rparr>))
        \<or> (\<exists>nextId rest. requestedModuleIdsQueue this = skipped @ nextId # rest
              \<and> notLoadedIn (moduleInfoMap this) nextId
              \<and> loadModule (this\<lparr>requestedModuleIdsQueue := rest\<rparr>) nextId False = Some (Inr this')))"
  using assms
proof (induction "requestedModuleIdsQueue this" arbitrary: this)
  case Nil
  then have q: "requestedModuleIdsQueue this = []" by simp
  then have same: "this\<lparr>requestedModuleIdsQueue := []\<rparr> = this" by (cases this) simp
  from Nil.prems q have "this' = dispatchActiveIdleChangeIfNeeded this"
    by (simp add: loadNextModule_Nil ok_def)
  then have "this' = dispatchActiveIdleChangeIfNeeded (this\<lparr>requestedModuleIdsQueue := []\<rparr>)"
    by (simp only: same)
  with q show ?case by (intro exI[of _ "[]"]) simp
next
  case (Cons nextId rest)
  let ?t = "this\<lparr>requestedModuleIdsQueue := rest\<rparr>"
  from Cons.hyps(2) have q: "requestedModuleIdsQueue this = nextId # rest" by simp
  show ?case
  proof (cases "getModuleInfo ?t nextId")
    case None
    with Cons.prems q show ?thesis by (simp add: loadNextModule_Cons throw_def)
  next
    case (Some info)
    then have info: "map_of (moduleInfoMap this) nextId = Some info" by (simp add: getModuleInfo_def)
    show ?thesis
    proof (cases "loaded info")
      case False
      with Cons.prems q Some have "loadModule ?t nextId False = Some (Inr this')"
        by (simp add: loadNextModule_Cons)
      moreover have "notLoadedIn (moduleInfoMap this) nextId" using info False by (simp add: notLoadedIn_def)
      ultimately show ?thesis using q by (intro exI[of _ "[]"]) simp
    next
      case True
      with Cons.prems q Some have run: "loadNextModule ?t = Some (Inr this')"
        by (simp add: loadNextModule_Cons)
      have "rest = requestedModuleIdsQueue ?t" by simp
      from Cons.hyps(1)[OF this run] obtain skipped where
        sk: "\<forall>x\<in>set skipped. isLoadedIn (moduleInfoMap this) x"
        and alt: "(rest = skipped \<and> this' = dispatchActiveIdleChangeIfNeeded (this\<lparr>requestedModuleIdsQueue := []\<rparr>))
          \<or> (\<exists>n r. rest = skipped @ n # r \<and> notLoadedIn (moduleInfoMap this) n
                \<and> loadModule (this\<lparr>requestedModuleIdsQueue := r\<rparr>) n False = Some (Inr this'))"
        by auto
      have "isLoadedIn (moduleInfoMap this) nextId" using info True by (simp add: isLoadedIn_def)
      with sk alt q show ?thesis by (intro exI[of _ "nextId # skipped"]) auto
    qed
  qed
qed

lemma loadNextModule_summary:
  assumes "loadNextModule this = Some (Inr this')"
  shows "moduleInfoMap this' = moduleInfoMap this
     \<and> userInitiatedLoadingModuleIds this' = userInitiatedLoadingModuleIds this
     \<and> callbackMap this' = callbackMap this
     \<and> batchModeEnabled this' = batchModeEnabled this
     \<and> flagsInSync this'
     \<and> errorCallbacksIn (events this') = errorCallbacksIn (events this)
     \<and> ((loaderCalls (events this') = loaderCalls (events this)
           \<and> loadingModuleIds this' = loadingModuleIds this \<and> requestedModuleIdsQueue this' = []
           \<and> consecutiveFailures this' = consecutiveFailures this)
        \<or> (\<exists>nextId ids. nextId \<in> set (requestedModuleIdsQueue this)
              \<and> notLoadedIn (moduleInfoMap this) nextId
              \<and> getNotYetLoadedTransitiveDepIds this nextId = Some (Inr ids)
              \<and> loaderCalls (events this') = loaderCalls (events this) @ [loadingModuleIds this']
              \<and> loadingModuleIds this' \<noteq> []
              \<and> set (loadingModuleIds this') \<subseteq> set ids
              \<and> set (requestedModuleIdsQueue this') \<subseteq> set ids \<union> set (requestedModuleIdsQueue this)
              \<and> consecutiveFailures this' = 0))"
proof -
  from loadNextModule_result[OF assms] obtain skipped where
    alt: "(requestedModuleIdsQueue this = skipped
          \<and> this' = dispatchActiveIdleChangeIfNeeded (this\<lparr>requestedModuleIdsQueue := []\<rparr>))
        \<or> (\<exists>nextId rest. requestedModuleIdsQueue this = skipped @ nextId # rest
              \<and> notLoadedIn (moduleInfoMap this) nextId
              \<and> loadModule (this\<lparr>requestedModuleIdsQueue := rest\<rparr>) nextId False = Some (Inr this'))"
    by blast
  then show ?thesis
  proof
    assume "requestedModuleIdsQueue this = skipped
          \<and> this' = dispatchActiveIdleChangeIfNeeded (this\<lparr>requestedModuleIdsQueue := []\<rparr>)"
    then show ?thesis by simp
  next
    assume "\<exists>nextId rest. requestedModuleIdsQueue this = skipped @ nextId # rest
              \<and> notLoadedIn (moduleInfoMap this) nextId
              \<and> loadModule (this\<lparr>requestedModuleIdsQueue := rest\<rparr>) nextId False = Some (Inr this')"
    then obtain nextId rest where
      q: "requestedModuleIdsQueue this = skipped @ nextId # rest"
      and nl: "notLoadedIn (moduleInfoMap this) nextId"
      and lm: "loadModule (this\<lparr>requestedModuleIdsQueue := rest\<rparr>) nextId False = Some (Inr this')"
      by blast
    let ?t = "this\<lparr>requestedModuleIdsQueue := rest\<rparr>"
    from loadModule_result[OF lm] obtain ids where
      ids: "getNotYetLoadedTransitiveDepIds ?t nextId = Some (Inr ids)"
      and l: "loadingModuleIds this' = (if \<not> batchModeEnabled ?t \<and> length ids > 1 then [hd ids] else ids)"
      and qu: "requestedModuleIdsQueue this' =
            (if \<not> batchModeEnabled ?t \<and> length ids > 1 then tl ids else []) @ requestedModuleIdsQueue ?t"
      and rest: "consecutiveFailures this' = 0"
         "loaderCalls (events this') = loaderCalls (events ?t) @ [loadingModuleIds this']"
         "errorCallbacksIn (events this') = errorCallbacksIn (events ?t)"
         "moduleInfoMap this' = moduleInfoMap ?t"
         "userInitiatedLoadingModuleIds this' = userInitiatedLoadingModuleIds ?t"
         "callbackMap this' = callbackMap ?t"
         "batchModeEnabled this' = batchModeEnabled ?t"
         "flagsInSync this'"
      by auto
    have ids': "getNotYetLoadedTransitiveDepIds this nextId = Some (Inr ids)"
      using ids getNotYetLoadedTransitiveDepIds_cong[of ?t this nextId] by simp
    have ne: "ids \<noteq> []" using resolve_contains_root[OF ids'] by auto
    have sub: "set (loadingModuleIds this') \<subseteq> set ids"
      using l ne by (auto simp: hd_in_set)
    have "loadingModuleIds this' \<noteq> []" using l ne by auto
    moreover have "set (requestedModuleIdsQueue this') \<subseteq> set ids \<union> set (requestedModuleIdsQueue this)"
      using qu q ne by (auto dest: list.set_sel(2))
    moreover have "nextId \<in> set (requestedModuleIdsQueue this)" using q by simp
    ultimately show ?thesis using rest ids' nl sub by auto
  qed
qed

lemma sameGraph_refl [simp]: "sameGraph m m"
  by (simp add: sameGraph_def)

lemma sameGraph_sym: "sameGraph m m' \<Longrightarrow> sameGraph m' m"
  by (simp add: sameGraph_def)

lemma sameGraph_None:
  assumes "sameGraph m m'" "map_of m x = None"
  shows "map_of m' x = None"
proof -
  from assms(1) have "map_option (\<lambda>i. (dependencyIds i, loaded i)) (map_of m x)
      = map_option (\<lambda>i. (dependencyIds i, loaded i)) (map_of m' x)"
    unfolding sameGraph_def by (rule spec)
  with assms(2) show ?thesis by simp
qed

lemma sameGraph_Some:
  assumes "sameGraph m m'" "map_of m x = Some (info :: ModuleInfo)"
  shows "\<exists>info'. map_of m' x = Some info' \<and> dependencyIds info' = dependencyIds info
            \<and> loaded info' = loaded info"
proof -
  from assms(1) have "map_option (\<lambda>i. (dependencyIds i, loaded i)) (map_of m x)
      = map_option (\<lambda>i. (dependencyIds i, loaded i)) (map_of m' x)"
    unfolding sameGraph_def by (rule spec)
  with assms(2) have "map_option (\<lambda>i. (dependencyIds i, loaded i)) (map_of m' x)
      = Some (dependencyIds info, loaded info)"
    by simp
  then show ?thesis by (cases "map_of m' x") simp_all
qed

lemma collectDepIds_sameGraph_le:
  assumes "collectDepIds m depIds ids = Some r" "sameGraph m m'"
  shows "collectDepIds m' depIds ids = Some r"
  using assms(1)
proof (induction rule: collectDepIds_induct)
  case (Nil ids)
  show ?case by (simp add: collectDepIds_Nil)
next
  case (Unknown rest d ids)
  from sameGraph_None[OF assms(2) Unknown] show ?case by (simp add: collectDepIds_snoc)
next
  case (Loaded rest d info ids r)
  from sameGraph_Some[OF assms(2) Loaded.hyps(1)] obtain info' where
    "map_of m' d = Some info'" "loaded info' = loaded info" by blast
  with Loaded.hyps(2) Loaded.IH show ?case by (simp add: collectDepIds_snoc)
next
  case (NotLoaded rest d info ids r)
  from sameGraph_Some[OF assms(2) NotLoaded.hyps(1)] obtain info' where
    "map_of m' d = Some info'" "loaded info' = loaded info" "dependencyIds info' = dependencyIds info"
    by blast
  with NotLoaded.hyps(2) NotLoaded.IH show ?case by (simp add: collectDepIds_snoc)
qed

lemma collectDepIds_sameGraph:
  assumes "sameGraph m m'"
  shows "collectDepIds m depIds ids = collectDepIds m' depIds ids"
proof (cases "collectDepIds m depIds ids")
  case (Some r)
  with collectDepIds_sameGraph_le[OF _ assms] show ?thesis by simp
next
  case None
  show ?thesis
  proof (cases "collectDepIds m' depIds ids")
    case (Some r)
    with collectDepIds_sameGraph_le[OF _ sameGraph_sym[OF assms]] None show ?thesis by simp
  next
    case None': None
    with None show ?thesis by simp
  qed
qed

lemma resolve_sameGraph:
  assumes "sameGraph (moduleInfoMap a) (moduleInfoMap b)"
  shows "getNotYetLoadedTransitiveDepIds a mid = getNotYetLoadedTransitiveDepIds b mid"
proof (cases "map_of (moduleInfoMap a) mid")
  case None
  with sameGraph_None[OF assms] show ?thesis
    by (simp add: getNotYetLoadedTransitiveDepIds_def getModuleInfo_def)
next
  case (Some info)
  from sameGraph_Some[OF assms Some] obtain info' where
    "map_of (moduleInfoMap b) mid = Some info'" "dependencyIds info' = dependencyIds info"
    by blast
  with Some collectDepIds_sameGraph[OF assms, of "dependencyIds info" "[mid]"] show ?thesis
    by (simp add: getNotYetLoadedTransitiveDepIds_def getModuleInfo_def)
qed

lemma sameGraph_update:
  assumes "map_of m x = Some info" "dependencyIds info' = dependencyIds info" "loaded info' = loaded info"
  shows "sameGraph (AList.update x info' m) m"
  unfolding sameGraph_def
proof
  fix y
  show "map_option (\<lambda>i. (dependencyIds i, loaded i)) (map_of (AList.update x info' m) y)
      = map_option (\<lambda>i. (dependencyIds i, loaded i)) (map_of m y)"
    using assms by (cases "y = x") (simp_all add: update_conv')
qed

lemma dependsOnFailed_sameGraph:
  "sameGraph (moduleInfoMap a) (moduleInfoMap b) \<Longrightarrow> dependsOnFailed a f r = dependsOnFailed b f r"
  by (simp add: dependsOnFailed_def resolve_sameGraph)

subsection \<open>the queued ids that depend on the failed id\<close>

lemma idsDependingOn_result:
  assumes "idsDependingOn this failed queue = Some (Inr dependents)"
  shows "(\<forall>r\<in>set queue. \<exists>deps. getNotYetLoadedTransitiveDepIds this r = Some (Inr deps))
     \<and> dependents = (case failed of None \<Rightarrow> [] | Some f \<Rightarrow> filter (dependsOnFailed this f) queue)"
  using assms
proof (induction queue arbitrary: dependents)
  case Nil
  then show ?case by (simp add: ok_def split: option.split)
next
  case (Cons r rest)
  from Cons.prems obtain deps kept where
    deps: "getNotYetLoadedTransitiveDepIds this r = Some (Inr deps)"
    and kept: "idsDependingOn this failed rest = Some (Inr kept)"
    and res: "dependents = (if (case failed of None \<Rightarrow> False | Some f \<Rightarrow> f \<in> set deps) then r # kept else kept)"
    by (auto simp: andThen_eq_ok ok_def)
  from Cons.IH[OF kept] deps res show ?case
    by (auto simp: dependsOnFailed_def split: option.splits)
qed

subsection \<open>cancelling\<close>

lemma cancelIds_eq:
  "cancelIds this ids =
     this\<lparr>requestedModuleIdsQueue := fold remove1 ids (requestedModuleIdsQueue this),
          userInitiatedLoadingModuleIds := fold remove1 ids (userInitiatedLoadingModuleIds this)\<rparr>"
proof (induction ids arbitrary: this)
  case Nil
  show ?case by (cases this) (simp add: cancelIds_def)
next
  case (Cons c ids)
  have "cancelIds this (c # ids) =
      cancelIds (this\<lparr>requestedModuleIdsQueue := remove1 c (requestedModuleIdsQueue this),
                     userInitiatedLoadingModuleIds := remove1 c (userInitiatedLoadingModuleIds this)\<rparr>) ids"
    by (simp add: cancelIds_def)
  then show ?case by (simp add: Cons.IH)
qed

lemma fold_remove1_filter:
  "\<forall>y\<in>set ys. \<not> P y \<Longrightarrow> fold remove1 (filter P xs) (ys @ xs) = ys @ filter (\<lambda>x. \<not> P x) xs"
proof (induction xs arbitrary: ys)
  case Nil
  show ?case by simp
next
  case (Cons x xs)
  show ?case
  proof (cases "P x")
    case True
    with Cons.prems have "x \<notin> set ys" by blast
    then have "remove1 x (ys @ x # xs) = ys @ xs" by (simp add: remove1_append)
    with True Cons.IH[OF Cons.prems] show ?thesis by simp
  next
    case False
    with Cons.prems have "\<forall>y\<in>set (ys @ [x]). \<not> P y" by simp
    from Cons.IH[OF this] False show ?thesis by simp
  qed
qed

lemma fold_remove1_filter_all:
  "fold remove1 (filter P xs) xs = filter (\<lambda>x. \<not> P x) xs"
  using fold_remove1_filter[of "[]" P xs] by simp

lemma fold_remove1_distinct:
  "distinct u \<Longrightarrow> distinct (fold remove1 ids u) \<and> set (fold remove1 ids u) = set u - set ids"
proof (induction ids arbitrary: u)
  case Nil
  then show ?case by simp
next
  case (Cons c ids)
  from Cons.prems have "distinct (remove1 c u)" "set (remove1 c u) = set u - {c}" by auto
  with Cons.IH[of "remove1 c u"] show ?case by auto
qed

lemma fold_remove1_subset: "set (fold remove1 ids u) \<subseteq> set u"
proof (induction ids arbitrary: u)
  case Nil
  show ?case by simp
next
  case (Cons c ids)
  have "set (fold remove1 ids (remove1 c u)) \<subseteq> set (remove1 c u)" by (rule Cons.IH)
  also have "\<dots> \<subseteq> set u" by (rule set_remove1_subset)
  finally show ?case by simp
qed

lemma loaderCalls_onError [simp]: "loaderCalls (snd (onError info cause)) = []"
  by (simp add: onError_def loaderCalls_Execute)

lemma errorCallbacksIn_onError [simp]: "errorCallbacksIn (snd (onError info cause)) = []"
  by (simp add: onError_def errorCallbacksIn_Execute)

lemma onError_graph [simp]:
  "dependencyIds (fst (onError info cause)) = dependencyIds info"
  "loaded (fst (onError info cause)) = loaded info"
  by (simp_all add: onError_def)

lemma dispatchModuleLoadFailed_result:
  assumes run: "dispatchModuleLoadFailed this cause = Some (Inr this')"
  shows "loadingModuleIds this' = []
     \<and> requestedModuleIdsQueue this' = fold remove1 (idsToCancel this) (requestedModuleIdsQueue this)
     \<and> userInitiatedLoadingModuleIds this' = fold remove1 (idsToCancel this) (userInitiatedLoadingModuleIds this)
     \<and> errorCallbacksIn (events this') =
          errorCallbacksIn (events this)
          @ concat (map (\<lambda>cb. map (\<lambda>c. (cb, c, cause)) (idsToCancel this)) (callbackMap this ERROR))
     \<and> loaderCalls (events this') = loaderCalls (events this)
     \<and> flagsInSync this'
     \<and> callbackMap this' = callbackMap this
     \<and> batchModeEnabled this' = batchModeEnabled this
     \<and> loader this' = loader this
     \<and> consecutiveFailures this' = consecutiveFailures this
     \<and> sameGraph (moduleInfoMap this') (moduleInfoMap this)
     \<and> (\<forall>r\<in>set (requestedModuleIdsQueue this). \<exists>deps. getNotYetLoadedTransitiveDepIds this r = Some (Inr deps))"
proof -
  let ?failed = "failedId this"
  let ?this1 = "this\<lparr>loadingModuleIds := []\<rparr>"
  define cancel where "cancel dependents =
      (case ?failed of None \<Rightarrow> dependents
       | Some f \<Rightarrow> if f \<noteq> [] then insertIfAbsent dependents f else dependents)" for dependents
  define this3 where "this3 dependents =
      emit (cancelIds ?this1 (cancel dependents))
        (errorNotifications (callbackMap (cancelIds ?this1 (cancel dependents)) ERROR) (cancel dependents) cause)"
    for dependents
  define this4 where "this4 dependents =
      (case ?failed of
         None \<Rightarrow> this3 dependents
       | Some f \<Rightarrow>
           (case getModuleInfo (this3 dependents) f of
              None \<Rightarrow> this3 dependents
            | Some info \<Rightarrow>
                emit (putModuleInfo (this3 dependents) f (fst (onError info cause)))
                     (snd (onError info cause))))" for dependents
  from run have "andThen (idsDependingOn ?this1 ?failed (requestedModuleIdsQueue ?this1))
      (\<lambda>dependents. ok (dispatchActiveIdleChangeIfNeeded (this4 dependents))) = Some (Inr this')"
    unfolding dispatchModuleLoadFailed_def Let_def failedId_def cancel_def this3_def this4_def
    by simp
  then obtain dependents where
    dep: "idsDependingOn ?this1 ?failed (requestedModuleIdsQueue this) = Some (Inr dependents)"
    and this': "this' = dispatchActiveIdleChangeIfNeeded (this4 dependents)"
    by (auto simp: andThen_eq_ok ok_def)
  have same: "getNotYetLoadedTransitiveDepIds ?this1 r = getNotYetLoadedTransitiveDepIds this r" for r
    by (rule getNotYetLoadedTransitiveDepIds_cong) simp
  then have same': "dependsOnFailed ?this1 f = dependsOnFailed this f" for f
    by (simp add: dependsOnFailed_def fun_eq_iff)
  from idsDependingOn_result[OF dep] have
    allres: "\<forall>r\<in>set (requestedModuleIdsQueue this). \<exists>deps. getNotYetLoadedTransitiveDepIds this r = Some (Inr deps)"
    and dependents: "dependents = (case ?failed of None \<Rightarrow> []
          | Some f \<Rightarrow> filter (dependsOnFailed this f) (requestedModuleIdsQueue this))"
    by (simp_all add: same same' cong: option.case_cong)
  have cancel: "cancel dependents = idsToCancel this"
    by (simp add: cancel_def idsToCancel_def dependents split: option.split)
  have t3: "loadingModuleIds (this3 dependents) = []"
    "requestedModuleIdsQueue (this3 dependents) = fold remove1 (idsToCancel this) (requestedModuleIdsQueue this)"
    "userInitiatedLoadingModuleIds (this3 dependents) = fold remove1 (idsToCancel this) (userInitiatedLoadingModuleIds this)"
    "errorCallbacksIn (events (this3 dependents)) =
          errorCallbacksIn (events this)
          @ concat (map (\<lambda>cb. map (\<lambda>c. (cb, c, cause)) (idsToCancel this)) (callbackMap this ERROR))"
    "loaderCalls (events (this3 dependents)) = loaderCalls (events this)"
    "callbackMap (this3 dependents) = callbackMap this"
    "batchModeEnabled (this3 dependents) = batchModeEnabled this"
    "loader (this3 dependents) = loader this"
    "consecutiveFailures (this3 dependents) = consecutiveFailures this"
    "moduleInfoMap (this3 dependents) = moduleInfoMap this"
    by (simp_all add: this3_def cancel cancelIds_eq emit_def errorCallbacksIn_append loaderCalls_append
        errorCallbacksIn_errorNotifications loaderCalls_errorNotifications)
  have t4: "loadingModuleIds (this4 dependents) = loadingModuleIds (this3 dependents)"
    "requestedModuleIdsQueue (this4 dependents) = requestedModuleIdsQueue (this3 dependents)"
    "userInitiatedLoadingModuleIds (this4 dependents) = userInitiatedLoadingModuleIds (this3 dependents)"
    "errorCallbacksIn (events (this4 dependents)) = errorCallbacksIn (events (this3 dependents))"
    "loaderCalls (events (this4 dependents)) = loaderCalls (events (this3 dependents))"
    "callbackMap (this4 dependents) = callbackMap (this3 dependents)"
    "batchModeEnabled (this4 dependents) = batchModeEnabled (this3 dependents)"
    "loader (this4 dependents) = loader (this3 dependents)"
    "consecutiveFailures (this4 dependents) = consecutiveFailures (this3 dependents)"
    by (simp_all add: this4_def emit_def putModuleInfo_def errorCallbacksIn_append loaderCalls_append
        split: option.split)
  have g4: "sameGraph (moduleInfoMap (this4 dependents)) (moduleInfoMap (this3 dependents))"
    by (auto simp: this4_def emit_def putModuleInfo_def getModuleInfo_def
        intro!: sameGraph_update split: option.split)
  show ?thesis
    using t3 t4 g4 allres by (simp add: this')
qed

lemma resolve_set:
  assumes "getNotYetLoadedTransitiveDepIds this n = Some (Inr ids)"
  shows "\<exists>info. getModuleInfo this n = Some info
      \<and> set ids = insert n (\<Union>d\<in>set (dependencyIds info). reachNL (moduleInfoMap this) d)"
proof -
  from resolve_okD[OF assms] obtain info :: ModuleInfo and raw where
    info: "getModuleInfo this n = Some info"
    and run: "collectDepIds (moduleInfoMap this) (dependencyIds info) [n] = Some (Inr raw)"
    and ids: "ids = removeDuplicates raw"
    by blast
  from collectDepIds_set[OF run] ids have
    "set ids = insert n (\<Union>d\<in>set (dependencyIds info). reachNL (moduleInfoMap this) d)"
    by (auto simp: set_removeDuplicates)
  with info show ?thesis by blast
qed

lemma reachNL_trans:
  assumes "x \<in> reachNL m d" "f \<in> reachNL m x"
  shows "f \<in> reachNL m d"
proof -
  from assms(1) have d: "notLoadedIn m d" "(d, x) \<in> (notLoadedDeps m)\<^sup>*"
    by (simp_all add: reachNL_def split: if_splits)
  from assms(2) have "(x, f) \<in> (notLoadedDeps m)\<^sup>*"
    by (simp add: reachNL_def split: if_splits)
  with d(2) have "(d, f) \<in> (notLoadedDeps m)\<^sup>*" by (rule rtrancl_trans)
  with d(1) show ?thesis by (simp add: reachNL_def)
qed

lemma reachNL_notLoaded:
  assumes "x \<in> reachNL m d"
  shows "notLoadedIn m x"
proof -
  from assms have d: "notLoadedIn m d" "(d, x) \<in> (notLoadedDeps m)\<^sup>*"
    by (simp_all add: reachNL_def split: if_splits)
  from d(2) have "x = d \<or> (d, x) \<in> (notLoadedDeps m)\<^sup>+" by (auto simp: rtrancl_eq_or_trancl)
  with d(1) show ?thesis by (auto dest: notLoadedDeps_target)
qed

lemma resolve_trans:
  assumes n: "getNotYetLoadedTransitiveDepIds this n = Some (Inr idsn)"
    and x: "x \<in> set idsn"
    and f: "dependsOnFailed this f x"
  shows "f \<in> set idsn"
proof (cases "x = n")
  case True
  from f obtain idsx where "getNotYetLoadedTransitiveDepIds this x = Some (Inr idsx)" "f \<in> set idsx"
    unfolding dependsOnFailed_def by blast
  with n True show ?thesis by simp
next
  case False
  let ?m = "moduleInfoMap this"
  from resolve_set[OF n] obtain info :: ModuleInfo where
    setn: "set idsn = insert n (\<Union>d\<in>set (dependencyIds info). reachNL ?m d)" by blast
  from x False have "x \<in> (\<Union>d\<in>set (dependencyIds info). reachNL ?m d)"
    unfolding setn by blast
  then obtain d where d: "d \<in> set (dependencyIds info)" "x \<in> reachNL ?m d" by blast
  from f obtain idsx where idsx: "getNotYetLoadedTransitiveDepIds this x = Some (Inr idsx)" "f \<in> set idsx"
    unfolding dependsOnFailed_def by blast
  from resolve_set[OF idsx(1)] obtain infox :: ModuleInfo where
    infox: "getModuleInfo this x = Some infox"
    and setx: "set idsx = insert x (\<Union>e\<in>set (dependencyIds infox). reachNL ?m e)" by blast
  have mx: "map_of ?m x = Some infox" using infox by (simp add: getModuleInfo_def)
  have "notLoadedIn ?m x" using d(2) by (rule reachNL_notLoaded)
  with mx have nlx: "\<not> loaded infox" by (simp add: notLoadedIn_def)
  have "reachNL ?m x = set idsx"
    unfolding setx by (rule reachNL_unfold[OF mx nlx])
  with idsx(2) have "f \<in> reachNL ?m x" by (simp only:)
  with d(2) have "f \<in> reachNL ?m d" by (rule reachNL_trans)
  with d(1) have "f \<in> (\<Union>d\<in>set (dependencyIds info). reachNL ?m d)" by blast
  then show ?thesis unfolding setn by blast
qed

lemma idsToCancel_set:
  assumes "loadingModuleIds this \<noteq> []" "last (loadingModuleIds this) = F" "F \<noteq> []"
  shows "set (idsToCancel this) = insert F {r \<in> set (requestedModuleIdsQueue this). dependsOnFailed this F r}"
  using assms by (auto simp: idsToCancel_def failedId_def insertIfAbsent_def)

lemma cancelled_queue:
  assumes "failedId this = Some F"
    and "\<forall>r\<in>set (requestedModuleIdsQueue this). \<exists>deps. getNotYetLoadedTransitiveDepIds this r = Some (Inr deps)"
  shows "fold remove1 (idsToCancel this) (requestedModuleIdsQueue this)
       = filter (\<lambda>r. \<not> dependsOnFailed this F r) (requestedModuleIdsQueue this)"
proof -
  let ?q = "requestedModuleIdsQueue this"
  let ?D = "filter (dependsOnFailed this F) ?q"
  show ?thesis
  proof (cases "F \<noteq> [] \<and> F \<notin> set ?D")
    case False
    then have "idsToCancel this = ?D"
      using assms(1) by (auto simp: idsToCancel_def insertIfAbsent_def)
    then show ?thesis by (simp add: fold_remove1_filter_all)
  next
    case True
    then have c: "idsToCancel this = ?D @ [F]"
      using assms(1) by (auto simp: idsToCancel_def insertIfAbsent_def)
    have "F \<notin> set ?q"
    proof
      assume "F \<in> set ?q"
      with assms(2) obtain deps where "getNotYetLoadedTransitiveDepIds this F = Some (Inr deps)" by blast
      with resolve_contains_root[OF this] have "dependsOnFailed this F F" by (auto simp: dependsOnFailed_def)
      with \<open>F \<in> set ?q\<close> True show False by simp
    qed
    then have "remove1 F (filter (\<lambda>r. \<not> dependsOnFailed this F r) ?q) = filter (\<lambda>r. \<not> dependsOnFailed this F r) ?q"
      by (simp add: remove1_idem)
    with c show ?thesis by (simp add: fold_remove1_filter_all)
  qed
qed

lemma idsToCancel_cong:
  assumes "moduleInfoMap a = moduleInfoMap b" "loadingModuleIds a = loadingModuleIds b"
    "requestedModuleIdsQueue a = requestedModuleIdsQueue b"
  shows "idsToCancel a = idsToCancel b"
proof -
  have "dependsOnFailed a f = dependsOnFailed b f" for f
    using getNotYetLoadedTransitiveDepIds_cong[OF assms(1)] by (simp add: dependsOnFailed_def fun_eq_iff)
  then show ?thesis using assms(2,3) by (simp add: idsToCancel_def failedId_def cong: option.case_cong)
qed

lemma failureKind_cases:
  assumes "failureKind this operation = Some kind"
  obtains status where "operation = HandleLoadError status" "status = 401" "kind = UNAUTHORIZED"
  | status where "operation = HandleLoadError status" "status \<noteq> 401" "status = 410" "kind = OLD_CODE_GONE"
  | status where "operation = HandleLoadError status" "status \<noteq> 401" "status \<noteq> 410"
        "consecutiveFailures this + 1 \<ge> 3" "kind = CONSECUTIVE_FAILURES"
  | "operation = HandleLoadTimeout" "kind = TIMEOUT"
  using assms by (cases operation) (auto split: if_splits)

lemma terminal_failure_steps:
  assumes kind: "failureKind this operation = Some kind"
    and step: "step this operation = Some (Inr this')"
  shows "\<exists>this1 t. moduleInfoMap this1 = moduleInfoMap this
      \<and> loadingModuleIds this1 = loadingModuleIds this
      \<and> requestedModuleIdsQueue this1 = requestedModuleIdsQueue this
      \<and> userInitiatedLoadingModuleIds this1 = userInitiatedLoadingModuleIds this
      \<and> callbackMap this1 = callbackMap this
      \<and> events this1 = events this
      \<and> dispatchModuleLoadFailed this1 kind = Some (Inr t)
      \<and> ((operation = HandleLoadError 401 \<and> this' = t\<lparr>requestedModuleIdsQueue := []\<rparr>)
           \<or> (operation \<noteq> HandleLoadError 401 \<and> loadNextModule t = Some (Inr this')))"
  using kind
proof (cases rule: failureKind_cases)
  case (1 status)
  let ?this1 = "this\<lparr>consecutiveFailures := consecutiveFailures this + 1\<rparr>"
  from step 1 obtain t where "dispatchModuleLoadFailed ?this1 kind = Some (Inr t)"
    "this' = t\<lparr>requestedModuleIdsQueue := []\<rparr>"
    by (auto simp: handleLoadError_def Let_def andThen_eq_ok ok_def)
  with 1 show ?thesis by (intro exI[of _ ?this1] exI[of _ t]) simp
next
  case (2 status)
  let ?this1 = "this\<lparr>consecutiveFailures := consecutiveFailures this + 1\<rparr>"
  from step 2 obtain t where "dispatchModuleLoadFailed ?this1 kind = Some (Inr t)"
    "loadNextModule t = Some (Inr this')"
    by (auto simp: handleLoadError_def Let_def andThen_eq_ok)
  with 2 show ?thesis by (intro exI[of _ ?this1] exI[of _ t]) simp
next
  case (3 status)
  let ?this1 = "this\<lparr>consecutiveFailures := consecutiveFailures this + 1\<rparr>"
  from step 3 obtain t where "dispatchModuleLoadFailed ?this1 kind = Some (Inr t)"
    "loadNextModule t = Some (Inr this')"
    by (auto simp: handleLoadError_def Let_def andThen_eq_ok)
  with 3 show ?thesis by (intro exI[of _ ?this1] exI[of _ t]) simp
next
  case 4
  from step 4 obtain t where "dispatchModuleLoadFailed this kind = Some (Inr t)"
    "loadNextModule t = Some (Inr this')"
    by (auto simp: handleLoadTimeout_def andThen_eq_ok)
  with 4 show ?thesis by (intro exI[of _ this] exI[of _ t]) simp
qed

lemma dependsOnFailed_cong:
  "moduleInfoMap a = moduleInfoMap b \<Longrightarrow> dependsOnFailed a f r = dependsOnFailed b f r"
  using getNotYetLoadedTransitiveDepIds_cong[of a b] by (simp add: dependsOnFailed_def)

subsection \<open>Terminal failures: what is cancelled and what is reported\<close>

text \<open>
  What the code does on a terminal load failure (a report of the loader that ends in
  the kind Unauthorized, Gone, ConsecutiveFailures or Timeout) of the requested id \<open>F\<close>, a
  non-empty string, when the manager has reacted: \<open>F\<close> and every id that was in the queue
  and whose resolved list contains \<open>F\<close> are no longer in the queue; when
  \<open>userInitiatedLoadingModuleIds_\<close> held no id twice, they are no longer in it either;
  and every registered error callback has been called, with that failure kind, for the ids
  to cancel, which are exactly \<open>F\<close> and those queued ids, and for no other id. The case of
  the status 410 is the kind \<open>OLD_CODE_GONE\<close>.
\<close>

theorem terminal_failure_cancels_dependents:
  assumes kind: "failureKind this operation = Some kind"
    and step: "step this operation = Some (Inr this')"
    and ne: "loadingModuleIds this \<noteq> []" and F: "last (loadingModuleIds this) = F" and Fne: "F \<noteq> []"
  shows "F \<notin> set (requestedModuleIdsQueue this')
     \<and> (\<forall>r\<in>set (requestedModuleIdsQueue this). dependsOnFailed this F r \<longrightarrow> r \<notin> set (requestedModuleIdsQueue this'))
     \<and> (distinct (userInitiatedLoadingModuleIds this) \<longrightarrow>
            F \<notin> set (userInitiatedLoadingModuleIds this')
          \<and> (\<forall>r\<in>set (requestedModuleIdsQueue this). dependsOnFailed this F r
                 \<longrightarrow> r \<notin> set (userInitiatedLoadingModuleIds this')))
     \<and> errorCallbacksIn (events this') =
          errorCallbacksIn (events this)
          @ concat (map (\<lambda>cb. map (\<lambda>c. (cb, c, kind)) (idsToCancel this)) (callbackMap this ERROR))
     \<and> set (idsToCancel this) = insert F {r \<in> set (requestedModuleIdsQueue this). dependsOnFailed this F r}"
proof -
  from terminal_failure_steps[OF kind step] obtain this1 t where
    eqs: "moduleInfoMap this1 = moduleInfoMap this" "loadingModuleIds this1 = loadingModuleIds this"
      "requestedModuleIdsQueue this1 = requestedModuleIdsQueue this"
      "userInitiatedLoadingModuleIds this1 = userInitiatedLoadingModuleIds this"
      "callbackMap this1 = callbackMap this" "events this1 = events this"
    and fail: "dispatchModuleLoadFailed this1 kind = Some (Inr t)"
    and alt: "(operation = HandleLoadError 401 \<and> this' = t\<lparr>requestedModuleIdsQueue := []\<rparr>)
           \<or> (operation \<noteq> HandleLoadError 401 \<and> loadNextModule t = Some (Inr this'))"
    by blast
  let ?q = "requestedModuleIdsQueue this"
  let ?dep = "dependsOnFailed this F"
  have dep1: "dependsOnFailed this1 f = dependsOnFailed this f" for f
    using dependsOnFailed_cong[OF eqs(1)] by (simp add: fun_eq_iff)
  have cancel1: "idsToCancel this1 = idsToCancel this"
    by (rule idsToCancel_cong[OF eqs(1,2,3)])
  have fid: "failedId this1 = Some F" using ne F eqs(2) by (simp add: failedId_def)
  from dispatchModuleLoadFailed_result[OF fail] have
    qt0: "requestedModuleIdsQueue t = fold remove1 (idsToCancel this1) (requestedModuleIdsQueue this1)"
    and ut0: "userInitiatedLoadingModuleIds t = fold remove1 (idsToCancel this1) (userInitiatedLoadingModuleIds this1)"
    and et0: "errorCallbacksIn (events t) = errorCallbacksIn (events this1)
          @ concat (map (\<lambda>cb. map (\<lambda>c. (cb, c, kind)) (idsToCancel this1)) (callbackMap this1 ERROR))"
    and gt: "sameGraph (moduleInfoMap t) (moduleInfoMap this1)"
    and allres: "\<forall>r\<in>set (requestedModuleIdsQueue this1). \<exists>deps. getNotYetLoadedTransitiveDepIds this1 r = Some (Inr deps)"
    by simp_all
  from cancelled_queue[OF fid allres] qt0 have qt: "requestedModuleIdsQueue t = filter (\<lambda>r. \<not> ?dep r) ?q"
    by (simp add: eqs dep1)
  have ut: "userInitiatedLoadingModuleIds t = fold remove1 (idsToCancel this) (userInitiatedLoadingModuleIds this)"
    using ut0 by (simp add: eqs cancel1)
  have et: "errorCallbacksIn (events t) = errorCallbacksIn (events this)
          @ concat (map (\<lambda>cb. map (\<lambda>c. (cb, c, kind)) (idsToCancel this)) (callbackMap this ERROR))"
    using et0 by (simp add: eqs cancel1)
  have cset: "set (idsToCancel this) = insert F {r \<in> set ?q. ?dep r}"
    by (rule idsToCancel_set[OF ne F Fne])
  have FF: "?dep F" if "F \<in> set ?q"
  proof -
    from that allres eqs(3) obtain deps where d: "getNotYetLoadedTransitiveDepIds this1 F = Some (Inr deps)"
      by auto
    from resolve_contains_root[OF d] d have "dependsOnFailed this1 F F"
      unfolding dependsOnFailed_def by blast
    then show ?thesis by (simp add: dep1)
  qed
  have Fqt: "F \<notin> set (requestedModuleIdsQueue t)" using qt FF by auto
  have uq: "userInitiatedLoadingModuleIds this' = userInitiatedLoadingModuleIds t
      \<and> errorCallbacksIn (events this') = errorCallbacksIn (events t)"
    using alt loadNextModule_summary[of t this'] by auto
  have gthis: "sameGraph (moduleInfoMap t) (moduleInfoMap this)" using gt eqs(1) by simp
  have queue: "c \<notin> set (requestedModuleIdsQueue this')"
    if c: "c = F \<or> (c \<in> set ?q \<and> ?dep c)" for c
  proof (cases "operation = HandleLoadError 401")
    case True
    with alt show ?thesis by auto
  next
    case False
    with alt have next': "loadNextModule t = Some (Inr this')" by simp
    have cq: "c \<notin> set (requestedModuleIdsQueue t)" using c qt Fqt by auto
    from loadNextModule_summary[OF next'] consider
      (empty) "requestedModuleIdsQueue this' = []"
      | (loads) nextId ids where "nextId \<in> set (requestedModuleIdsQueue t)"
          "getNotYetLoadedTransitiveDepIds t nextId = Some (Inr ids)"
          "set (requestedModuleIdsQueue this') \<subseteq> set ids \<union> set (requestedModuleIdsQueue t)"
      by blast
    then show ?thesis
    proof cases
      case empty
      then show ?thesis by simp
    next
      case loads
      from loads(2) have res: "getNotYetLoadedTransitiveDepIds this nextId = Some (Inr ids)"
        using resolve_sameGraph[OF gthis, of nextId] by simp
      from loads(1) qt have "\<not> ?dep nextId" by simp
      with res have Fids: "F \<notin> set ids" by (auto simp: dependsOnFailed_def)
      have "c \<notin> set ids"
      proof
        assume cin: "c \<in> set ids"
        from c show False
        proof
          assume "c = F"
          with cin Fids show False by simp
        next
          assume "c \<in> set ?q \<and> ?dep c"
          then have "?dep c" by simp
          from resolve_trans[OF res cin this] Fids show False by simp
        qed
      qed
      with cq loads(3) show ?thesis by blast
    qed
  qed
  have user: "c \<notin> set (userInitiatedLoadingModuleIds this')"
    if c: "c = F \<or> (c \<in> set ?q \<and> ?dep c)" and d: "distinct (userInitiatedLoadingModuleIds this)" for c
  proof -
    from c cset have "c \<in> set (idsToCancel this)" by auto
    with fold_remove1_distinct[OF d, of "idsToCancel this"] ut uq show ?thesis by simp
  qed
  have "errorCallbacksIn (events this') =
          errorCallbacksIn (events this)
          @ concat (map (\<lambda>cb. map (\<lambda>c. (cb, c, kind)) (idsToCancel this)) (callbackMap this ERROR))"
    using uq et by simp
  moreover have "F \<notin> set (requestedModuleIdsQueue this')" by (rule queue) simp
  moreover have "\<forall>r\<in>set ?q. ?dep r \<longrightarrow> r \<notin> set (requestedModuleIdsQueue this')"
    using queue by blast
  moreover have "distinct (userInitiatedLoadingModuleIds this) \<longrightarrow>
            F \<notin> set (userInitiatedLoadingModuleIds this')
          \<and> (\<forall>r\<in>set ?q. ?dep r \<longrightarrow> r \<notin> set (userInitiatedLoadingModuleIds this'))"
    using user by blast
  ultimately show ?thesis using cset by blast
qed

lemmas run_defs = eval_defs observe_def run.simps step.simps

lemma dependentQueued_state:
  "run newModuleManager dependentQueuedOps = Some (Inr (stateAfter dependentQueuedOps))"
  "loadingModuleIds (stateAfter dependentQueuedOps) = [''B'']"
  "requestedModuleIdsQueue (stateAfter dependentQueuedOps) = [''A'', ''C'']"
  "userInitiatedLoadingModuleIds (stateAfter dependentQueuedOps) = []"
  "callbackMap (stateAfter dependentQueuedOps) ERROR = [''onError'']"
  "events (stateAfter dependentQueuedOps) = [LoadModules [''B'']]"
  "moduleInfoMap (stateAfter dependentQueuedOps) =
     [(''A'', (newModuleInfo [''B''])\<lparr>pendingCallbacks := [DeferredCallback 0],
                                       pendingErrbacks := [DeferredErrback 0]\<rparr>),
      (''B'', newModuleInfo []),
      (''C'', (newModuleInfo [])\<lparr>pendingCallbacks := [DeferredCallback 1],
                                   pendingErrbacks := [DeferredErrback 1]\<rparr>)]"
  by (simp_all add: stateAfter_def dependentQueuedOps_def run_defs)

lemma dependentQueued_cancel:
  "dependsOnFailed (stateAfter dependentQueuedOps) ''B'' ''A''"
  "idsToCancel (stateAfter dependentQueuedOps) = [''A'', ''B'']"
  by (simp_all add: idsToCancel_def failedId_def dependsOnFailed_def dependentQueued_state
      getNotYetLoadedTransitiveDepIds_def getModuleInfo_def andThen_def ok_def throw_def
      newModuleInfo_def collectDepIds_Nil collectDepIds_step insertIfAbsent_def)

lemma dependentQueued_gone:
  "\<exists>this'. step (stateAfter dependentQueuedOps) (HandleLoadError 410) = Some (Inr this')"
  by (simp add: stateAfter_def dependentQueuedOps_def run_defs)

lemma dependentQueued_unauthorized:
  "\<exists>this'. handleLoadError (stateAfter dependentQueuedOps) 401 = Some (Inr this')"
  by (simp add: stateAfter_def dependentQueuedOps_def run_defs)

text \<open>
  The theorem at a 410 for \<open>B\<close> while \<open>A\<close>, which requires \<open>B\<close>, and the unrelated \<open>C\<close>
  are queued: \<open>A\<close> and \<open>B\<close> leave the queue and the error callback is called for both.
\<close>

theorem terminal_failure_cancels_dependents_witness:
  "run newModuleManager dependentQueuedOps = Some (Inr (stateAfter dependentQueuedOps))
   \<and> failureKind (stateAfter dependentQueuedOps) (HandleLoadError 410) = Some OLD_CODE_GONE
   \<and> loadingModuleIds (stateAfter dependentQueuedOps) = [''B'']
   \<and> requestedModuleIdsQueue (stateAfter dependentQueuedOps) = [''A'', ''C'']
   \<and> distinct (userInitiatedLoadingModuleIds (stateAfter dependentQueuedOps))
   \<and> dependsOnFailed (stateAfter dependentQueuedOps) ''B'' ''A''
   \<and> (\<exists>this'. step (stateAfter dependentQueuedOps) (HandleLoadError 410) = Some (Inr this')
        \<and> ''A'' \<notin> set (requestedModuleIdsQueue this') \<and> ''B'' \<notin> set (requestedModuleIdsQueue this')
        \<and> ''A'' \<notin> set (userInitiatedLoadingModuleIds this')
        \<and> errorCallbacksIn (events this') =
              [(''onError'', ''A'', OLD_CODE_GONE), (''onError'', ''B'', OLD_CODE_GONE)])"
proof -
  let ?pre = "stateAfter dependentQueuedOps"
  from dependentQueued_gone obtain this' where
    step: "step ?pre (HandleLoadError 410) = Some (Inr this')" by blast
  have kind: "failureKind ?pre (HandleLoadError 410) = Some OLD_CODE_GONE" by simp
  have ne: "loadingModuleIds ?pre \<noteq> []" and F: "last (loadingModuleIds ?pre) = ''B''"
    and Fne: "''B'' \<noteq> []"
    by (simp_all add: dependentQueued_state)
  have d: "distinct (userInitiatedLoadingModuleIds ?pre)" by (simp add: dependentQueued_state)
  from terminal_failure_cancels_dependents[OF kind step ne F Fne] d dependentQueued_cancel(1)
  have "''B'' \<notin> set (requestedModuleIdsQueue this')"
    "''A'' \<notin> set (requestedModuleIdsQueue this')"
    "''A'' \<notin> set (userInitiatedLoadingModuleIds this')"
    "errorCallbacksIn (events this') =
          errorCallbacksIn (events ?pre)
          @ concat (map (\<lambda>cb. map (\<lambda>c. (cb, c, OLD_CODE_GONE)) (idsToCancel ?pre)) (callbackMap ?pre ERROR))"
    by (simp_all add: dependentQueued_state)
  then have "''A'' \<notin> set (requestedModuleIdsQueue this') \<and> ''B'' \<notin> set (requestedModuleIdsQueue this')
        \<and> ''A'' \<notin> set (userInitiatedLoadingModuleIds this')
        \<and> errorCallbacksIn (events this') =
              [(''onError'', ''A'', OLD_CODE_GONE), (''onError'', ''B'', OLD_CODE_GONE)]"
    by (simp add: dependentQueued_state dependentQueued_cancel)
  with step kind d show ?thesis
    using dependentQueued_state(1,2,3) dependentQueued_cancel(1) by blast
qed

subsection \<open>Claim C2: a cancelled id that stays user-initiated\<close>

lemma twiceUserInitiated_state:
  "run newModuleManager twiceUserInitiatedOps = Some (Inr (stateAfter twiceUserInitiatedOps))"
  "loadingModuleIds (stateAfter twiceUserInitiatedOps) = [''B'']"
  "requestedModuleIdsQueue (stateAfter twiceUserInitiatedOps) = [''A'']"
  "userInitiatedLoadingModuleIds (stateAfter twiceUserInitiatedOps) = [''A'', ''A'']"
  "dependsOnFailed (stateAfter twiceUserInitiatedOps) ''B'' ''A''"
  by (simp_all add: stateAfter_def twiceUserInitiatedOps_def run_defs dependsOnFailed_def)

text \<open>
  C2 fails on the code. On a terminal load failure of an id \<open>F\<close>, every queued id whose
  resolved list contains \<open>F\<close> has to leave the queue and
  \<open>userInitiatedLoadingModuleIds_\<close>, and \<open>dispatchModuleLoadFailed_\<close> removes each
  cancelled id from both. Here \<open>A\<close> requires \<open>B\<close> and the user asks for \<open>A\<close> twice
  through \<open>execOnLoad\<close>, which pushes the id a second time. The loader reports 410 for
  \<open>B\<close>: \<open>A\<close> leaves the queue, but \<open>goog.array.remove\<close> takes one occurrence of \<open>A\<close>
  out of \<open>userInitiatedLoadingModuleIds_\<close> and the other stays. The cancelled \<open>A\<close> is
  still user-initiated, and the manager stays user-active with nothing loading or queued.
\<close>

theorem cancelled_id_stays_user_initiated:
  "run newModuleManager twiceUserInitiatedOps = Some (Inr (stateAfter twiceUserInitiatedOps))
   \<and> loadingModuleIds (stateAfter twiceUserInitiatedOps) = [''B'']
   \<and> requestedModuleIdsQueue (stateAfter twiceUserInitiatedOps) = [''A'']
   \<and> userInitiatedLoadingModuleIds (stateAfter twiceUserInitiatedOps) = [''A'', ''A'']
   \<and> dependsOnFailed (stateAfter twiceUserInitiatedOps) ''B'' ''A''
   \<and> observe loadingModuleIds (step (stateAfter twiceUserInitiatedOps) (HandleLoadError 410))
        = Some (Inr [])
   \<and> observe requestedModuleIdsQueue (step (stateAfter twiceUserInitiatedOps) (HandleLoadError 410))
        = Some (Inr [])
   \<and> observe userInitiatedLoadingModuleIds (step (stateAfter twiceUserInitiatedOps) (HandleLoadError 410))
        = Some (Inr [''A''])
   \<and> observe userLastActive (step (stateAfter twiceUserInitiatedOps) (HandleLoadError 410))
        = Some (Inr True)"
proof -
  have "observe loadingModuleIds (step (stateAfter twiceUserInitiatedOps) (HandleLoadError 410))
        = Some (Inr [])"
    "observe requestedModuleIdsQueue (step (stateAfter twiceUserInitiatedOps) (HandleLoadError 410))
        = Some (Inr [])"
    "observe userInitiatedLoadingModuleIds (step (stateAfter twiceUserInitiatedOps) (HandleLoadError 410))
        = Some (Inr [''A''])"
    "observe userLastActive (step (stateAfter twiceUserInitiatedOps) (HandleLoadError 410))
        = Some (Inr True)"
    by (simp_all add: stateAfter_def twiceUserInitiatedOps_def run_defs)
  with twiceUserInitiated_state show ?thesis by simp
qed

subsection \<open>Claim C3: status 401\<close>

text \<open>
  C3, as the code has it. When the loader reports status 401 while a load is in flight
  (the requested id \<open>F\<close>, a non-empty string, is the last of \<open>loadingModuleIds_\<close>), every
  registered error callback is called with the kind \<open>UNAUTHORIZED\<close> for \<open>F\<close> and for the
  queued ids whose resolved list contains \<open>F\<close>, and for no other id; the queue is cleared
  entirely, nothing is loading, and the loader is not called again.
\<close>

theorem unauthorized_clears_queue:
  assumes run: "handleLoadError this 401 = Some (Inr this')"
    and ne: "loadingModuleIds this \<noteq> []" and F: "last (loadingModuleIds this) = F" and Fne: "F \<noteq> []"
  shows "requestedModuleIdsQueue this' = []
     \<and> loadingModuleIds this' = []
     \<and> loaderCalls (events this') = loaderCalls (events this)
     \<and> errorCallbacksIn (events this') =
          errorCallbacksIn (events this)
          @ concat (map (\<lambda>cb. map (\<lambda>c. (cb, c, UNAUTHORIZED)) (idsToCancel this)) (callbackMap this ERROR))
     \<and> set (idsToCancel this) = insert F {r \<in> set (requestedModuleIdsQueue this). dependsOnFailed this F r}"
proof -
  let ?this1 = "this\<lparr>consecutiveFailures := consecutiveFailures this + 1\<rparr>"
  from run obtain t where fail: "dispatchModuleLoadFailed ?this1 UNAUTHORIZED = Some (Inr t)"
    and this': "this' = t\<lparr>requestedModuleIdsQueue := []\<rparr>"
    by (auto simp: handleLoadError_def Let_def andThen_eq_ok ok_def)
  have cancel1: "idsToCancel (this\<lparr>consecutiveFailures := n\<rparr>) = idsToCancel this" for n
    by (rule idsToCancel_cong) simp_all
  from dispatchModuleLoadFailed_result[OF fail] have
    "loadingModuleIds t = []" "loaderCalls (events t) = loaderCalls (events this)"
    "errorCallbacksIn (events t) = errorCallbacksIn (events this)
          @ concat (map (\<lambda>cb. map (\<lambda>c. (cb, c, UNAUTHORIZED)) (idsToCancel this)) (callbackMap this ERROR))"
    by (simp_all add: cancel1)
  with idsToCancel_set[OF ne F Fne] show ?thesis by (simp add: this')
qed

theorem unauthorized_clears_queue_witness:
  "run newModuleManager dependentQueuedOps = Some (Inr (stateAfter dependentQueuedOps))
   \<and> loadingModuleIds (stateAfter dependentQueuedOps) = [''B'']
   \<and> requestedModuleIdsQueue (stateAfter dependentQueuedOps) = [''A'', ''C'']
   \<and> (\<exists>this'. handleLoadError (stateAfter dependentQueuedOps) 401 = Some (Inr this')
        \<and> requestedModuleIdsQueue this' = [] \<and> loadingModuleIds this' = []
        \<and> loaderCalls (events this') = [[''B'']]
        \<and> errorCallbacksIn (events this') =
              [(''onError'', ''A'', UNAUTHORIZED), (''onError'', ''B'', UNAUTHORIZED)])"
proof -
  let ?pre = "stateAfter dependentQueuedOps"
  from dependentQueued_unauthorized obtain this' where
    run: "handleLoadError ?pre 401 = Some (Inr this')" by blast
  have ne: "loadingModuleIds ?pre \<noteq> []" and F: "last (loadingModuleIds ?pre) = ''B''"
    and Fne: "''B'' \<noteq> []"
    by (simp_all add: dependentQueued_state)
  from unauthorized_clears_queue[OF run ne F Fne]
  have "requestedModuleIdsQueue this' = [] \<and> loadingModuleIds this' = []
        \<and> loaderCalls (events this') = [[''B'']]
        \<and> errorCallbacksIn (events this') =
              [(''onError'', ''A'', UNAUTHORIZED), (''onError'', ''B'', UNAUTHORIZED)]"
    by (simp add: dependentQueued_state dependentQueued_cancel)
  with run dependentQueued_state(1,2,3) show ?thesis by blast
qed

lemma independentQueued_state:
  "run newModuleManager independentQueuedOps = Some (Inr (stateAfter independentQueuedOps))"
  "loadingModuleIds (stateAfter independentQueuedOps) = [''A'']"
  "requestedModuleIdsQueue (stateAfter independentQueuedOps) = [''B'']"
  "callbackMap (stateAfter independentQueuedOps) ERROR = [''onError'']"
  "events (stateAfter independentQueuedOps) = [LoadModules [''A'']]"
  by (simp_all add: stateAfter_def independentQueuedOps_def run_defs)

text \<open>
  C3 as stated fails: the other queued ids are dropped without a report. With \<open>B\<close> queued
  behind the unrelated \<open>A\<close>, a 401 calls the error callback (and the errback of the
  deferred of \<open>load('A')\<close>) for \<open>A\<close> only; \<open>B\<close> leaves the queue unreported.
\<close>

theorem unauthorized_drops_queue_silently_counterexample:
  "run newModuleManager independentQueuedOps = Some (Inr (stateAfter independentQueuedOps))
   \<and> loadingModuleIds (stateAfter independentQueuedOps) = [''A'']
   \<and> requestedModuleIdsQueue (stateAfter independentQueuedOps) = [''B'']
   \<and> callbackMap (stateAfter independentQueuedOps) ERROR = [''onError'']
   \<and> events (stateAfter independentQueuedOps) = [LoadModules [''A'']]
   \<and> observe events (handleLoadError (stateAfter independentQueuedOps) 401)
        = Some (Inr [LoadModules [''A''], ErrorCallback ''onError'' ''A'' UNAUTHORIZED,
                     Execute (DeferredErrback 0) (Cause UNAUTHORIZED)])
   \<and> observe requestedModuleIdsQueue (handleLoadError (stateAfter independentQueuedOps) 401)
        = Some (Inr [])"
proof -
  have "observe events (handleLoadError (stateAfter independentQueuedOps) 401)
        = Some (Inr [LoadModules [''A''], ErrorCallback ''onError'' ''A'' UNAUTHORIZED,
                     Execute (DeferredErrback 0) (Cause UNAUTHORIZED)])"
   "observe requestedModuleIdsQueue (handleLoadError (stateAfter independentQueuedOps) 401)
        = Some (Inr [])"
    by (simp_all add: stateAfter_def independentQueuedOps_def run_defs)
  with independentQueued_state show ?thesis by simp
qed

lemma loadModule_split:
  assumes "\<not> batchModeEnabled this" "loader this" "getModuleInfo this mid = Some info" "\<not> loaded info"
    and "getNotYetLoadedTransitiveDepIds this mid = Some (Inr (first # second # rest))"
  shows "\<exists>this'. loadModule this mid isRetry = Some (Inr this')
          \<and> loadingModuleIds this' = [first]
          \<and> requestedModuleIdsQueue this' = (second # rest) @ requestedModuleIdsQueue this
          \<and> loaderCalls (events this') = loaderCalls (events this) @ [[first]]"
  using assms
  by (cases isRetry)
     (simp_all add: loadModule_def andThen_def ok_def Let_def emit_def loaderCalls_append)

subsection \<open>Claim C7: one id at a time without batch mode\<close>

text \<open>
  C7. When batch mode is disabled and the resolved list of the id has more than one entry,
  \<open>loadModule_\<close> passes only the first resolved id to the loader and puts the rest of the
  list in front of the queue. For the modules \<open>{A: [], B: [A], C: [B]}\<close>, \<open>load('C')\<close>
  calls the loader with \<open>['A']\<close>; after \<open>setLoaded('A')\<close> the loader is called with
  \<open>['B']\<close>, after \<open>setLoaded('B')\<close> with \<open>['C']\<close>, and after \<open>setLoaded('C')\<close> the
  callback of the deferred that \<open>load('C')\<close> returned (number 0) is called, with the
  module context; these are all the calls the manager makes. With batch mode enabled the
  loader is called once, with \<open>['A', 'B', 'C']\<close>.
\<close>

theorem loadModule_dispatches_first_when_not_batching:
  "(\<forall>this mid isRetry info first second rest.
      \<not> batchModeEnabled this \<and> loader this \<and> getModuleInfo this mid = Some info \<and> \<not> loaded info
      \<and> getNotYetLoadedTransitiveDepIds this mid = Some (Inr (first # second # rest))
    \<longrightarrow> (\<exists>this'. loadModule this mid isRetry = Some (Inr this')
          \<and> loadingModuleIds this' = [first]
          \<and> requestedModuleIdsQueue this' = (second # rest) @ requestedModuleIdsQueue this
          \<and> loaderCalls (events this') = loaderCalls (events this) @ [[first]]))
   \<and> observe events (run newModuleManager [SetAllModuleInfo chainOfThree, SetLoader, Load ''C''])
       = Some (Inr [LoadModules [''A'']])
   \<and> load (stateAfter [SetAllModuleInfo chainOfThree, SetLoader]) ''C''
       = Some (Inr (0, stateAfter [SetAllModuleInfo chainOfThree, SetLoader, Load ''C'']))
   \<and> observe events (run newModuleManager
         [SetAllModuleInfo chainOfThree, SetLoader, Load ''C'', SetLoaded ''A''])
       = Some (Inr [LoadModules [''A''], LoadModules [''B'']])
   \<and> observe events (run newModuleManager
         [SetAllModuleInfo chainOfThree, SetLoader, Load ''C'', SetLoaded ''A'', SetLoaded ''B''])
       = Some (Inr [LoadModules [''A''], LoadModules [''B''], LoadModules [''C'']])
   \<and> observe events (run newModuleManager
         [SetAllModuleInfo chainOfThree, SetLoader, Load ''C'', SetLoaded ''A'', SetLoaded ''B'',
          SetLoaded ''C''])
       = Some (Inr [LoadModules [''A''], LoadModules [''B''], LoadModules [''C''],
                    Execute (DeferredCallback 0) (Context None)])
   \<and> observe events (run newModuleManager
         [SetAllModuleInfo chainOfThree, SetLoader, SetBatchModeEnabled True, Load ''C''])
       = Some (Inr [LoadModules [''A'', ''B'', ''C'']])"
proof -
  have "observe events (run newModuleManager [SetAllModuleInfo chainOfThree, SetLoader, Load ''C''])
       = Some (Inr [LoadModules [''A'']])"
    by (simp add: chainOfThree_def run_defs)
  moreover have "load (stateAfter [SetAllModuleInfo chainOfThree, SetLoader]) ''C''
       = Some (Inr (0, stateAfter [SetAllModuleInfo chainOfThree, SetLoader, Load ''C'']))"
    by (simp add: chainOfThree_def stateAfter_def run_defs)
  moreover have "observe events (run newModuleManager
         [SetAllModuleInfo chainOfThree, SetLoader, Load ''C'', SetLoaded ''A''])
       = Some (Inr [LoadModules [''A''], LoadModules [''B'']])"
    by (simp add: chainOfThree_def run_defs)
  moreover have "observe events (run newModuleManager
         [SetAllModuleInfo chainOfThree, SetLoader, Load ''C'', SetLoaded ''A'', SetLoaded ''B''])
       = Some (Inr [LoadModules [''A''], LoadModules [''B''], LoadModules [''C'']])"
    by (simp add: chainOfThree_def run_defs)
  moreover have "observe events (run newModuleManager
         [SetAllModuleInfo chainOfThree, SetLoader, Load ''C'', SetLoaded ''A'', SetLoaded ''B'',
          SetLoaded ''C''])
       = Some (Inr [LoadModules [''A''], LoadModules [''B''], LoadModules [''C''],
                    Execute (DeferredCallback 0) (Context None)])"
    by (simp add: chainOfThree_def run_defs)
  moreover have "observe events (run newModuleManager
         [SetAllModuleInfo chainOfThree, SetLoader, SetBatchModeEnabled True, Load ''C''])
       = Some (Inr [LoadModules [''A'', ''B'', ''C'']])"
    by (simp add: chainOfThree_def run_defs)
  ultimately show ?thesis using loadModule_split by blast
qed

text \<open>
  The general part at the first call of the scenario.
\<close>

theorem loadModule_dispatches_first_when_not_batching_witness:
  "\<not> batchModeEnabled (stateAfter [SetAllModuleInfo chainOfThree, SetLoader])
   \<and> loader (stateAfter [SetAllModuleInfo chainOfThree, SetLoader])
   \<and> getModuleInfo (stateAfter [SetAllModuleInfo chainOfThree, SetLoader]) ''C'' = Some (newModuleInfo [''B''])
   \<and> \<not> loaded (newModuleInfo [''B''])
   \<and> getNotYetLoadedTransitiveDepIds (stateAfter [SetAllModuleInfo chainOfThree, SetLoader]) ''C''
       = Some (Inr [''A'', ''B'', ''C''])
   \<and> (\<exists>this'. loadModule (stateAfter [SetAllModuleInfo chainOfThree, SetLoader]) ''C'' False = Some (Inr this')
          \<and> loadingModuleIds this' = [''A'']
          \<and> requestedModuleIdsQueue this' = [''B'', ''C'']
          \<and> loaderCalls (events this') = [[''A'']])"
proof -
  let ?s = "stateAfter [SetAllModuleInfo chainOfThree, SetLoader]"
  have h: "\<not> batchModeEnabled ?s" "loader ?s" "getModuleInfo ?s ''C'' = Some (newModuleInfo [''B''])"
    "\<not> loaded (newModuleInfo [''B''])"
    "getNotYetLoadedTransitiveDepIds ?s ''C'' = Some (Inr [''A'', ''B'', ''C''])"
    "requestedModuleIdsQueue ?s = []" "events ?s = []"
    by (simp_all add: chainOfThree_def stateAfter_def run_defs)
  from loadModule_dispatches_first_when_not_batching h
  have "\<exists>this'. loadModule ?s ''C'' False = Some (Inr this')
          \<and> loadingModuleIds this' = [''A'']
          \<and> requestedModuleIdsQueue this' = [''B'', ''C''] @ requestedModuleIdsQueue ?s
          \<and> loaderCalls (events this') = loaderCalls (events ?s) @ [[''A'']]"
    by blast
  with h show ?thesis by simp
qed



lemma loaderCalls_onLoad [simp]: "loaderCalls (snd (onLoad info ctx)) = []"
  by (simp add: onLoad_def loaderCalls_append loaderCalls_Execute)

lemma errorCallbacksIn_onLoad [simp]: "errorCallbacksIn (snd (onLoad info ctx)) = []"
  by (simp add: onLoad_def errorCallbacksIn_append errorCallbacksIn_Execute)

lemma registerDeferred_fields [simp]:
  "loadingModuleIds (registerDeferred this mid info d) = loadingModuleIds this"
  "requestedModuleIdsQueue (registerDeferred this mid info d) = requestedModuleIdsQueue this"
  "userInitiatedLoadingModuleIds (registerDeferred this mid info d) = userInitiatedLoadingModuleIds this"
  "events (registerDeferred this mid info d) = events this"
  "lastActive (registerDeferred this mid info d) = lastActive this"
  "userLastActive (registerDeferred this mid info d) = userLastActive this"
  by (simp_all add: registerDeferred_def putModuleInfo_def)

lemma loadModuleOrEnqueue_result:
  assumes "loadModuleOrEnqueue this mid = Some (Inr this')"
  shows "flagsInSync this'
     \<and> userInitiatedLoadingModuleIds this' = userInitiatedLoadingModuleIds this
     \<and> ((loaderCalls (events this') = loaderCalls (events this)
          \<and> loadingModuleIds this' = loadingModuleIds this \<and> loadingModuleIds this \<noteq> []
          \<and> requestedModuleIdsQueue this' = requestedModuleIdsQueue this @ [mid])
        \<or> (loadingModuleIds this = []
          \<and> loaderCalls (events this') = loaderCalls (events this) @ [loadingModuleIds this']))"
proof (cases "loadingModuleIds this = []")
  case True
  with assms have "loadModule this mid False = Some (Inr this')" by (simp add: loadModuleOrEnqueue_def)
  from loadModule_result[OF this] True show ?thesis by auto
next
  case False
  with assms have "this' = dispatchActiveIdleChangeIfNeeded
                 (this\<lparr>requestedModuleIdsQueue := requestedModuleIdsQueue this @ [mid]\<rparr>)"
    by (simp add: loadModuleOrEnqueue_def ok_def)
  with False show ?thesis by simp
qed

lemma load_result:
  assumes "load this mid = Some (Inr (d, this'))"
  shows "(flagsInSync this \<longrightarrow> flagsInSync this')
     \<and> (loaderCalls (events this') = loaderCalls (events this)
        \<or> (loadingModuleIds this = [] \<and> \<not> isModuleLoading this mid
            \<and> loaderCalls (events this') = loaderCalls (events this) @ [loadingModuleIds this']))
     \<and> (isModuleLoading this mid \<longrightarrow>
           loaderCalls (events this') = loaderCalls (events this)
         \<and> loadingModuleIds this' = loadingModuleIds this
         \<and> requestedModuleIdsQueue this' = requestedModuleIdsQueue this)"
proof (cases "getModuleInfo this mid")
  case None
  with assms show ?thesis by (simp add: load_def throw_def)
next
  case (Some info)
  let ?fresh = "this\<lparr>deferredCount := Suc (deferredCount this)\<rparr>"
  let ?reg = "registerDeferred ?fresh mid info (deferredCount this)"
  have loading0: "isModuleLoading ?fresh mid = isModuleLoading this mid"
    by (simp add: isModuleLoading_def)
  show ?thesis
  proof (cases "loaded info")
    case True
    with assms Some have "this' = emit ?fresh [Execute (DeferredCallback (deferredCount this)) (Context (moduleContext ?fresh))]"
      by (auto simp: load_def Let_def ok_def)
    then show ?thesis by (simp add: emit_def flagsInSync_def loaderCalls_append)
  next
    case False
    show ?thesis
    proof (cases "isModuleLoading this mid")
      case True
      with assms Some False loading0 have "this' = ?reg"
        by (auto simp: load_def Let_def ok_def)
      then show ?thesis by (simp add: flagsInSync_def)
    next
      case notLoading: False
      with assms Some False loading0 have "andThen (loadModuleOrEnqueue ?reg mid) (\<lambda>t. ok (deferredCount this, t))
          = Some (Inr (d, this'))"
        by (simp add: load_def Let_def)
      then have "loadModuleOrEnqueue ?reg mid = Some (Inr this')"
        by (auto simp: andThen_eq_ok ok_def)
      from loadModuleOrEnqueue_result[OF this] notLoading show ?thesis by auto
    qed
  qed
qed

lemma remove1_Nil_cases: "remove1 x xs = [] \<Longrightarrow> xs = [] \<or> xs = [x]"
  by (cases xs) (auto split: if_splits)

lemma setLoaded_result:
  assumes "setLoaded this mid = Some (Inr this')"
  shows "flagsInSync this'
     \<and> (loaderCalls (events this') = loaderCalls (events this)
        \<or> (loaderCalls (events this') = loaderCalls (events this) @ [loadingModuleIds this']
            \<and> set (loadingModuleIds this') \<inter> set (loadingModuleIds this) = {}))"
proof -
  let ?cleared = "this\<lparr>userInitiatedLoadingModuleIds := remove1 mid (userInitiatedLoadingModuleIds this),
                       loadingModuleIds := remove1 mid (loadingModuleIds this)\<rparr>"
  show ?thesis
  proof (cases "getModuleInfo ?cleared mid")
    case None
    with assms show ?thesis by (simp add: setLoaded_def Let_def throw_def)
  next
    case (Some info)
    let ?marked = "emit (putModuleInfo ?cleared mid (fst (onLoad info (moduleContext ?cleared))))
                              (snd (onLoad info (moduleContext ?cleared)))"
    have c2: "loaderCalls (events ?marked) = loaderCalls (events this)"
      by (simp add: emit_def putModuleInfo_def loaderCalls_append)
    have l2: "loadingModuleIds ?marked = remove1 mid (loadingModuleIds this)"
      by (simp add: emit_def putModuleInfo_def)
    have loadedMid: "isLoadedIn (moduleInfoMap ?marked) mid"
      by (simp add: emit_def putModuleInfo_def isLoadedIn_def update_conv' onLoad_def)
    show ?thesis
    proof (cases "loadingModuleIds ?marked = []")
      case False
      with assms Some have "this' = dispatchActiveIdleChangeIfNeeded ?marked"
        by (simp add: setLoaded_def Let_def ok_def)
      with c2 show ?thesis by simp
    next
      case True
      with assms Some have "andThen (loadNextModule ?marked) (\<lambda>t. ok (dispatchActiveIdleChangeIfNeeded t))
          = Some (Inr this')"
        by (simp add: setLoaded_def Let_def)
      then obtain t where t: "loadNextModule ?marked = Some (Inr t)"
        and this': "this' = dispatchActiveIdleChangeIfNeeded t"
        by (auto simp: andThen_eq_ok ok_def)
      from True l2 have sub: "set (loadingModuleIds this) \<subseteq> {mid}"
        using remove1_Nil_cases[of mid "loadingModuleIds this"] by auto
      from loadNextModule_summary[OF t] consider
        (none) "loaderCalls (events t) = loaderCalls (events ?marked)"
        | (loads) nextId ids where "notLoadedIn (moduleInfoMap ?marked) nextId"
            "getNotYetLoadedTransitiveDepIds ?marked nextId = Some (Inr ids)"
            "loaderCalls (events t) = loaderCalls (events ?marked) @ [loadingModuleIds t]"
            "set (loadingModuleIds t) \<subseteq> set ids"
        by blast
      then show ?thesis
      proof cases
        case none
        with c2 this' show ?thesis by simp
      next
        case loads
        have "mid \<notin> set ids"
        proof
          assume m: "mid \<in> set ids"
          have "notLoadedIn (moduleInfoMap ?marked) mid"
          proof (cases "mid = nextId")
            case True
            with loads(1) show ?thesis by simp
          next
            case False
            from resolve_not_loaded[OF loads(2) m False] show ?thesis .
          qed
          with loadedMid show False by (auto simp: isLoadedIn_def notLoadedIn_def split: option.splits)
        qed
        with loads(4) sub have "set (loadingModuleIds t) \<inter> set (loadingModuleIds this) = {}" by blast
        with loads(3) c2 this' show ?thesis by simp
      qed
    qed
  qed
qed

subsection \<open>Claim C5: requests are coalesced\<close>

text \<open>
  C5, as the code has it. Every \<open>load(id)\<close>, \<open>setLoaded(id)\<close> and batch-mode setting
  that returns calls the loader at most once, with the ids that are loading afterwards,
  and none of these ids was in \<open>loadingModuleIds_\<close> before the call; and a \<open>load(id)\<close>
  for an id that is in \<open>loadingModuleIds_\<close> or in the queue calls the loader not at
  all and leaves both lists as they are. (An id that waits in the queue can still be
  passed to the loader, as the prerequisite of another queued id.)
\<close>

theorem requests_pass_no_loading_id_to_the_loader:
  assumes "requestOrNotification operation"
    and "step this operation = Some (Inr this')"
  shows "(loaderCalls (events this') = loaderCalls (events this)
          \<or> (loaderCalls (events this') = loaderCalls (events this) @ [loadingModuleIds this']
              \<and> set (loadingModuleIds this') \<inter> set (loadingModuleIds this) = {}))
     \<and> (\<forall>mid. operation = Load mid \<and> isModuleLoading this mid \<longrightarrow>
            loaderCalls (events this') = loaderCalls (events this)
          \<and> loadingModuleIds this' = loadingModuleIds this
          \<and> requestedModuleIdsQueue this' = requestedModuleIdsQueue this)"
proof (cases operation)
  case (Load mid)
  with assms(2) obtain d where "load this mid = Some (Inr (d, this'))"
    by (auto simp: andThen_eq_ok ok_def)
  from load_result[OF this] Load show ?thesis by auto
next
  case (SetLoaded mid)
  with assms(2) have "setLoaded this mid = Some (Inr this')" by simp
  from setLoaded_result[OF this] SetLoaded show ?thesis by auto
next
  case (SetBatchModeEnabled enabled)
  with assms(2) have "this' = this\<lparr>batchModeEnabled := enabled\<rparr>"
    by (simp add: ok_def setBatchModeEnabled_def)
  with SetBatchModeEnabled show ?thesis by simp
qed (use assms(1) in simp_all)

lemma flagsInSync_cong:
  assumes "lastActive a = lastActive b" "userLastActive a = userLastActive b"
    "loadingModuleIds a = loadingModuleIds b"
    "userInitiatedLoadingModuleIds a = userInitiatedLoadingModuleIds b"
  shows "flagsInSync a = flagsInSync b"
  using assms by (simp add: flagsInSync_def)

lemma putModuleInfo_fields [simp]:
  "loadingModuleIds (putModuleInfo this mid info) = loadingModuleIds this"
  "requestedModuleIdsQueue (putModuleInfo this mid info) = requestedModuleIdsQueue this"
  "userInitiatedLoadingModuleIds (putModuleInfo this mid info) = userInitiatedLoadingModuleIds this"
  "events (putModuleInfo this mid info) = events this"
  "lastActive (putModuleInfo this mid info) = lastActive this"
  "userLastActive (putModuleInfo this mid info) = userLastActive this"
  by (simp_all add: putModuleInfo_def)

lemma flagsInSync_putModuleInfo [simp]: "flagsInSync (putModuleInfo this mid info) = flagsInSync this"
  by (simp add: flagsInSync_def)

lemma flagsInSync_emit [simp]: "flagsInSync (emit this evs) = flagsInSync this"
  by (simp add: flagsInSync_def emit_def)

lemma flagsInSync_registerDeferred [simp]:
  "flagsInSync (registerDeferred this mid info d) = flagsInSync this"
  by (simp add: flagsInSync_def)











lemma queuedBehind_state:
  "run newModuleManager queuedBehindOps = Some (Inr (stateAfter queuedBehindOps))"
  "loadingModuleIds (stateAfter queuedBehindOps) = [''A'']"
  "requestedModuleIdsQueue (stateAfter queuedBehindOps) = [''C'', ''B'']"
  "loaderCalls (events (stateAfter queuedBehindOps)) = [[''A'']]"
  by (simp_all add: stateAfter_def queuedBehindOps_def run_defs)

lemma queuedBehind_loaded:
  "step (stateAfter queuedBehindOps) (SetLoaded ''A'')
     = Some (Inr (stateAfter (queuedBehindOps @ [SetLoaded ''A''])))"
  "loadingModuleIds (stateAfter (queuedBehindOps @ [SetLoaded ''A''])) = [''B'']"
  "requestedModuleIdsQueue (stateAfter (queuedBehindOps @ [SetLoaded ''A''])) = [''C'', ''B'']"
  "loaderCalls (events (stateAfter (queuedBehindOps @ [SetLoaded ''A'']))) = [[''A''], [''B'']]"
  by (simp_all add: stateAfter_def queuedBehindOps_def run_defs)

text \<open>
  The theorem at \<open>setLoaded('A')\<close> while \<open>C\<close>, which requires \<open>B\<close>, and \<open>B\<close> are queued.
\<close>

theorem requests_pass_no_loading_id_to_the_loader_witness:
  "requestOrNotification (SetLoaded ''A'')
   \<and> step (stateAfter queuedBehindOps) (SetLoaded ''A'')
        = Some (Inr (stateAfter (queuedBehindOps @ [SetLoaded ''A''])))
   \<and> loadingModuleIds (stateAfter queuedBehindOps) = [''A'']
   \<and> loaderCalls (events (stateAfter queuedBehindOps)) = [[''A'']]
   \<and> loaderCalls (events (stateAfter (queuedBehindOps @ [SetLoaded ''A'']))) = [[''A''], [''B'']]
   \<and> loadingModuleIds (stateAfter (queuedBehindOps @ [SetLoaded ''A''])) = [''B'']
   \<and> set (loadingModuleIds (stateAfter (queuedBehindOps @ [SetLoaded ''A''])))
       \<inter> set (loadingModuleIds (stateAfter queuedBehindOps)) = {}"
proof -
  have r: "requestOrNotification (SetLoaded ''A'')" by simp
  from requests_pass_no_loading_id_to_the_loader[OF r queuedBehind_loaded(1)]
  have "loaderCalls (events (stateAfter (queuedBehindOps @ [SetLoaded ''A''])))
          = loaderCalls (events (stateAfter queuedBehindOps))
        \<or> set (loadingModuleIds (stateAfter (queuedBehindOps @ [SetLoaded ''A''])))
            \<inter> set (loadingModuleIds (stateAfter queuedBehindOps)) = {}"
    by blast
  then have "set (loadingModuleIds (stateAfter (queuedBehindOps @ [SetLoaded ''A''])))
       \<inter> set (loadingModuleIds (stateAfter queuedBehindOps)) = {}"
    by (simp add: queuedBehind_state queuedBehind_loaded)
  with r queuedBehind_state queuedBehind_loaded show ?thesis by simp
qed

text \<open>
  C5 as stated fails: after \<open>load('A')\<close>, \<open>load('C')\<close>, \<open>load('B')\<close>, where \<open>C\<close>
  requires \<open>B\<close>, the queue is \<open>C, B\<close>; \<open>setLoaded('A')\<close> passes \<open>['B']\<close> to the
  loader while \<open>B\<close> is in the queue, before the call and after it.
\<close>

theorem queued_id_is_passed_to_the_loader_counterexample:
  "run newModuleManager queuedBehindOps = Some (Inr (stateAfter queuedBehindOps))
   \<and> requestedModuleIdsQueue (stateAfter queuedBehindOps) = [''C'', ''B'']
   \<and> loaderCalls (events (stateAfter queuedBehindOps)) = [[''A'']]
   \<and> setLoaded (stateAfter queuedBehindOps) ''A''
        = Some (Inr (stateAfter (queuedBehindOps @ [SetLoaded ''A''])))
   \<and> loaderCalls (events (stateAfter (queuedBehindOps @ [SetLoaded ''A'']))) = [[''A''], [''B'']]
   \<and> requestedModuleIdsQueue (stateAfter (queuedBehindOps @ [SetLoaded ''A''])) = [''C'', ''B'']
   \<and> ''B'' \<in> set (requestedModuleIdsQueue (stateAfter queuedBehindOps))"
  using queuedBehind_state queuedBehind_loaded by simp

subsection \<open>Claim C9: load of a module that is loaded\<close>

text \<open>
  C9, as the code has it. For every id whose module is already loaded, \<open>load(id)\<close>
  resolves the handle it returns with the shared module context at once and
  synchronously: \<open>d.callback(this.moduleContext_)\<close> has been called when \<open>load\<close>
  returns. Nothing else happens: no call of the loader, and the lists and the registry
  are as before.
\<close>

theorem load_of_loaded_module_fires_before_return:
  assumes "getModuleInfo this mid = Some info" and "loaded info"
  shows "load this mid =
       Some (Inr (deferredCount this,
                  this\<lparr>deferredCount := Suc (deferredCount this),
                       events := events this
                         @ [Execute (DeferredCallback (deferredCount this)) (Context (moduleContext this))]\<rparr>))
     \<and> (\<exists>d this'. load this mid = Some (Inr (d, this'))
          \<and> events this' = events this @ [Execute (DeferredCallback d) (Context (moduleContext this))]
          \<and> loaderCalls (events this') = loaderCalls (events this)
          \<and> loadingModuleIds this' = loadingModuleIds this
          \<and> requestedModuleIdsQueue this' = requestedModuleIdsQueue this
          \<and> moduleInfoMap this' = moduleInfoMap this)"
  using assms by (simp add: load_def Let_def ok_def emit_def loaderCalls_append)

lemma loaded_state:
  "run newModuleManager loadedOps = Some (Inr (stateAfter loadedOps))"
  "getModuleInfo (stateAfter loadedOps) ''A'' = Some ((newModuleInfo [])\<lparr>loaded := True\<rparr>)"
  "events (stateAfter loadedOps) = []"
  "deferredCount (stateAfter loadedOps) = 0"
  "moduleContext (stateAfter loadedOps) = Some ''context''"
  by (simp_all add: stateAfter_def loadedOps_def run_defs)

text \<open>
  The theorem at \<open>load('A')\<close> after \<open>setLoaded('A')\<close>, with a module context set.
\<close>

theorem load_of_loaded_module_fires_before_return_witness:
  "getModuleInfo (stateAfter loadedOps) ''A'' = Some ((newModuleInfo [])\<lparr>loaded := True\<rparr>)
   \<and> loaded ((newModuleInfo [])\<lparr>loaded := True\<rparr>)
   \<and> load (stateAfter loadedOps) ''A'' =
       Some (Inr (0, (stateAfter loadedOps)\<lparr>deferredCount := Suc 0,
               events := [Execute (DeferredCallback 0) (Context (Some ''context''))]\<rparr>))"
proof -
  have l: "loaded ((newModuleInfo [])\<lparr>loaded := True\<rparr>)" by simp
  from load_of_loaded_module_fires_before_return[OF loaded_state(2) l]
  have "load (stateAfter loadedOps) ''A'' =
       Some (Inr (0, (stateAfter loadedOps)\<lparr>deferredCount := Suc 0,
               events := [Execute (DeferredCallback 0) (Context (Some ''context''))]\<rparr>))"
    by (simp add: loaded_state)
  with l loaded_state(2) show ?thesis by simp
qed

text \<open>
  C9 as stated fails: when \<open>load('A')\<close> returns for the loaded \<open>A\<close>, the callback of
  the returned deferred has been called.
\<close>

theorem load_of_loaded_module_is_synchronous_counterexample:
  "run newModuleManager loadedOps = Some (Inr (stateAfter loadedOps))
   \<and> isLoadedIn (moduleInfoMap (stateAfter loadedOps)) ''A''
   \<and> events (stateAfter loadedOps) = []
   \<and> observe events (step (stateAfter loadedOps) (Load ''A''))
        = Some (Inr [Execute (DeferredCallback 0) (Context (Some ''context''))])"
  by (simp add: isLoadedIn_def stateAfter_def loadedOps_def run_defs)

subsection \<open>Claim C4: the handle of a cancelled id\<close>

text \<open>
  C4 fails on the code. \<open>A\<close> requires \<open>B\<close>; \<open>load('A')\<close> returns the deferred number 0,
  sends \<open>B\<close> to the loader and queues \<open>A\<close>. The loader reports 410. The registered error
  callback is called for \<open>A\<close> and for \<open>B\<close>, \<open>A\<close> leaves the queue and nothing is
  loading, but the errback of the deferred is not called: \<open>dispatchModuleLoadFailed_\<close>
  calls \<open>onError\<close> for the failed id only. The errback is still pending in the record
  of \<open>A\<close>.
\<close>

theorem load_handle_of_cancelled_id_stays_pending:
  "observe events (run newModuleManager cancelledOps)
     = Some (Inr [LoadModules [''B''],
                  ErrorCallback ''onError'' ''A'' OLD_CODE_GONE,
                  ErrorCallback ''onError'' ''B'' OLD_CODE_GONE])
   \<and> observe requestedModuleIdsQueue (run newModuleManager cancelledOps) = Some (Inr [])
   \<and> observe loadingModuleIds (run newModuleManager cancelledOps) = Some (Inr [])
   \<and> observe moduleInfoMap (run newModuleManager cancelledOps)
     = Some (Inr [(''A'', (newModuleInfo [''B''])\<lparr>pendingCallbacks := [DeferredCallback 0],
                                                   pendingErrbacks := [DeferredErrback 0]\<rparr>),
                  (''B'', newModuleInfo [])])"
  by (simp add: cancelledOps_def run_defs)

subsection \<open>the advance to the next queued module\<close>









subsection \<open>Claim C6: three transient failures in a row\<close>





subsection \<open>the callbacks a call fires\<close>

lemma changeCallbacks_same [simp]: "changeCallbacks cm f f = []"
  by (simp add: changeCallbacks_def)








lemma managerCallbacksIn_onLoad [simp]: "managerCallbacksIn (snd (onLoad info ctx)) = []"
  by (simp add: onLoad_def managerCallbacksIn_append managerCallbacksIn_Execute)

lemma managerCallbacksIn_onError [simp]: "managerCallbacksIn (snd (onError info cause)) = []"
  by (simp add: onError_def managerCallbacksIn_Execute)


















subsection \<open>Claim C8: the active and user-active flags\<close>





end
